theory Spec2Isabelle
  imports Complex_Main "HOL-Library.Word" "HOL-Library.Signed_Division" "HOL-Library.Log_Nat"
begin

section \<open>Machine integers of the SystemClock library\<close>

text \<open>
  The library stores its values in fixed-width C++ integers: \<open>int64_t\<close> seconds,
  \<open>uint32_t\<close> fractions and era offsets, \<open>int32_t\<close> eras.  Stored values are words;
  \<open>sint\<close> reads a signed one, \<open>uint\<close> an unsigned one.  An expression of the source is
  evaluated on \<open>int\<close> and brought back into its C++ type by \<open>word_of_int\<close>, which keeps
  the low bits: the two's complement wrap-around of the narrowing conversions
  (\<open>int64_t\<close> to \<open>int32_t\<close> or \<open>uint32_t\<close>) and of the 64-bit additions.  A signed
  sum, difference or negation that leaves its type is undefined in C++; it is read as
  the hardware computes it, in two's complement.  The operators \<open>/\<close> and \<open>%\<close> of C++
  truncate towards zero: they are \<open>sdiv\<close> and \<open>smod\<close>.
\<close>

type_synonym int64_t = "64 word"
type_synonym int32_t = "32 word"
type_synonym uint32_t = "32 word"

text \<open>\<open>#define POW2_32 4294967296LL\<close> and \<open>#define SECS_IN_68_YEARS 2144448000LL\<close>\<close>

definition POW2_32 :: int where
  "POW2_32 = 4294967296"

definition SECS_IN_68_YEARS :: int where
  "SECS_IN_68_YEARS = 2144448000"

section \<open>Instant: signed 64-bit seconds and an unsigned 32-bit fraction\<close>

record Instant =
  sysTime :: int64_t
  fraction :: uint32_t

text \<open>\<open>Instant()\<close> and \<open>Instant(int64_t sysTime, uint32_t fraction = 0)\<close>\<close>

definition Instant_zero :: Instant where
  "Instant_zero = \<lparr>sysTime = 0, fraction = 0\<rparr>"

text \<open>\<open>int64_t secs() const {return _sysTime;}\<close>\<close>

definition secs :: "Instant \<Rightarrow> int" where
  "secs t = sint (sysTime t)"

text \<open>
  \<open>void initialize(int32_t e, uint32_t o, uint32_t f) {setSysTime(e*POW2_32+o); setFraction(f);}\<close>
  The product and the sum are computed in \<open>long long\<close>.
\<close>

definition initialize :: "int32_t \<Rightarrow> uint32_t \<Rightarrow> uint32_t \<Rightarrow> Instant" where
  "initialize e o' f = \<lparr>sysTime = word_of_int (sint e * POW2_32 + uint o'), fraction = f\<rparr>"

text \<open>
  \<open>int32_t era() const
     {return ((_sysTime%POW2_32 < 0)?((_sysTime/POW2_32)-1):(_sysTime/POW2_32));}\<close>
\<close>

definition era :: "Instant \<Rightarrow> int32_t" where
  "era t = word_of_int
     (if secs t smod POW2_32 < 0 then (secs t sdiv POW2_32) - 1 else secs t sdiv POW2_32)"

text \<open>
  \<open>uint32_t eraOffset() const
     {int32_t result = _sysTime%POW2_32; return((result<0)?(result+POW2_32):(result));}\<close>
  The remainder is first narrowed to \<open>int32_t\<close>; the conditional expression is a
  \<open>long long\<close>, narrowed to \<open>uint32_t\<close> by the return.
\<close>

definition eraOffset :: "Instant \<Rightarrow> uint32_t" where
  "eraOffset t =
     (let result = sint (word_of_int (secs t smod POW2_32) :: int32_t)
      in word_of_int (if result < 0 then result + POW2_32 else result))"

text \<open>
  \<open>Instant& operator+=(const Instant& rhs)\<close>: the seconds are added in \<open>int64_t\<close>, the
  fractions in \<open>uint64_t\<close>, and a fraction sum of \<open>POW2_32\<close> or more carries one second.
\<close>

definition Instant_add :: "Instant \<Rightarrow> Instant \<Rightarrow> Instant" where
  "Instant_add lhs rhs =
     (let s = sysTime lhs + sysTime rhs;
          fr = uint (fraction lhs) + uint (fraction rhs)
      in if fr \<ge> POW2_32
         then \<lparr>sysTime = s + 1, fraction = word_of_int (fr - POW2_32)\<rparr>
         else \<lparr>sysTime = s, fraction = word_of_int fr\<rparr>)"

text \<open>
  \<open>Instant operator-() const\<close>:
  \<open>result._sysTime = -_sysTime; result._fraction = (uint32_t)(POW2_32 - (int64_t)_fraction);
     if( result._fraction != 0 ) result._sysTime -=1;\<close>
\<close>

definition Instant_neg :: "Instant \<Rightarrow> Instant" where
  "Instant_neg t =
     (let f = (word_of_int (POW2_32 - uint (fraction t)) :: uint32_t);
          s = - sysTime t
      in \<lparr>sysTime = (if f \<noteq> 0 then s - 1 else s), fraction = f\<rparr>)"

text \<open>\<open>Instant& operator-=(const Instant& rhs) {*this += -rhs; return *this;}\<close>\<close>

definition Instant_sub :: "Instant \<Rightarrow> Instant \<Rightarrow> Instant" where
  "Instant_sub lhs rhs = Instant_add lhs (Instant_neg rhs)"

section \<open>Calendar values\<close>

text \<open>
  \<open>struct Time {int hour; int min; int sec; uint32_t fraction;}\<close> and
  \<open>struct Date {int month; int day; int year;}\<close>.  The fields \<open>min\<close> and \<open>fraction\<close>
  of \<open>Time\<close> carry a prime here.  The \<open>int\<close> fields, and the \<open>int\<close>, \<open>long\<close>,
  \<open>unsigned long\<close> and \<open>uint32_t\<close> counters of the calendar functions, are integers
  without wrap-around: a year has at most 31622400 seconds, so with a valid date and time
  the sums of \<open>toInstant\<close> stay inside 32 bits and its seconds inside \<open>int64_t\<close>, and
  the year that \<open>toDate\<close> counts stays between 1900 and the year it ends on.
\<close>

record Time =
  hour :: int
  min' :: int
  sec :: int
  fraction' :: uint32_t

record Date =
  month :: int
  day :: int
  year :: int

text \<open>
  \<open>#define IS_LEAP_YEAR(y) ((((((y)%400)==0) || (((y)%100)!=0)) && ((((y)%4)==0)))?(true):(false))\<close>
\<close>

definition IS_LEAP_YEAR :: "int \<Rightarrow> bool" where
  "IS_LEAP_YEAR y \<longleftrightarrow> (y smod 400 = 0 \<or> y smod 100 \<noteq> 0) \<and> y smod 4 = 0"

definition SECS_IN_DAY :: int where
  "SECS_IN_DAY = 86400"

definition DAYS_IN_YEAR :: "int \<Rightarrow> int" where
  "DAYS_IN_YEAR y = (if IS_LEAP_YEAR y then 366 else 365)"

definition SECS_IN_YEAR :: "int \<Rightarrow> int" where
  "SECS_IN_YEAR y = DAYS_IN_YEAR y * SECS_IN_DAY"

text \<open>
  \<open>const int daysPerMonth[12] = {31,28,31,30,31,30,31,31,30,31,30,31};\<close>
  A read outside the twelve entries is undefined in C++: it is \<open>None\<close> here.
\<close>

definition daysPerMonth :: "int list" where
  "daysPerMonth = [31, 28, 31, 30, 31, 30, 31, 31, 30, 31, 30, 31]"

definition daysPerMonth_at :: "int \<Rightarrow> int option" where
  "daysPerMonth_at m = (if 0 \<le> m \<and> m < 12 then Some (daysPerMonth ! nat m) else None)"

text \<open>
  \<open>#define MONTH_DAYS(m,y) ((m==1)?((IS_LEAP_YEAR(y))?(daysPerMonth[m]+1):(daysPerMonth[m])):((daysPerMonth[m])))\<close>
  The month is an index from 0: index 1 is February.
\<close>

definition MONTH_DAYS :: "int \<Rightarrow> int \<Rightarrow> int option" where
  "MONTH_DAYS m y =
     (case daysPerMonth_at m of
        None \<Rightarrow> None
      | Some n \<Rightarrow> Some (if m = 1 then (if IS_LEAP_YEAR y then n + 1 else n) else n))"

text \<open>\<open>#define SECS_IN_MONTH(m,y) (MONTH_DAYS(m-1,y)*SECS_IN_DAY)\<close>\<close>

definition SECS_IN_MONTH :: "int \<Rightarrow> int \<Rightarrow> int option" where
  "SECS_IN_MONTH m y = map_option (\<lambda>n. n * SECS_IN_DAY) (MONTH_DAYS (m - 1) y)"

subsection \<open>Constructors\<close>

text \<open>
  \<open>Time(int h,int m, int s)
     {hour=((h<59)?((h>=0)?(h):(0)):(59)); sec=((s<59)?((s>=0)?(s):(0)):(59));
      min=((m<59)?((m>=0)?(m):(0)):(59)); fraction=0;}\<close>
\<close>

definition Time3 :: "int \<Rightarrow> int \<Rightarrow> int \<Rightarrow> Time" where
  "Time3 h m s =
     \<lparr>hour = (if h < 59 then (if h \<ge> 0 then h else 0) else 59),
      min' = (if m < 59 then (if m \<ge> 0 then m else 0) else 59),
      sec = (if s < 59 then (if s \<ge> 0 then s else 0) else 59),
      fraction' = 0\<rparr>"

text \<open>
  \<open>Time(int h,int m, int s,uint32_t f)
     {hour=((h<24)?((h>=0)?(h):(0)):(23)); sec=((s<59)?((s>=0)?(s):(0)):(59));
      min=((m<59)?((m>=0)?(m):(0)):(59)); fraction=f;}\<close>
\<close>

definition Time4 :: "int \<Rightarrow> int \<Rightarrow> int \<Rightarrow> uint32_t \<Rightarrow> Time" where
  "Time4 h m s f =
     \<lparr>hour = (if h < 24 then (if h \<ge> 0 then h else 0) else 23),
      min' = (if m < 59 then (if m \<ge> 0 then m else 0) else 59),
      sec = (if s < 59 then (if s \<ge> 0 then s else 0) else 59),
      fraction' = f\<rparr>"

text \<open>
  \<open>Date(int m, int d, int y)
     {month=((m<13)?((m>0)?(m):(1)):(12)); year=((y>=0)?(y):(0));
      day=((d>0)?((d>MONTH_DAYS(month,year))?(MONTH_DAYS(month,year)):(d)):(1));}\<close>
  The macro is applied to the month counted from 1.  It is expanded only when \<open>d > 0\<close>;
  the result is \<open>None\<close> when the expansion reads outside \<open>daysPerMonth\<close>.
\<close>

definition Date3 :: "int \<Rightarrow> int \<Rightarrow> int \<Rightarrow> Date option" where
  "Date3 m d y =
     (let mo = (if m < 13 then (if m > 0 then m else 1) else 12);
          ye = (if y \<ge> 0 then y else 0)
      in if d > 0
         then (case MONTH_DAYS mo ye of
                 None \<Rightarrow> None
               | Some n \<Rightarrow> Some \<lparr>month = mo, day = (if d > n then n else d), year = ye\<rparr>)
         else Some \<lparr>month = mo, day = 1, year = ye\<rparr>)"

subsection \<open>Seconds to date and time\<close>

text \<open>
  \<open>Date Instant::toDate(int64_t s)\<close>.  The two \<open>while\<close> loops walk year by year:
  \<open>while( sysT <  -SECS_IN_YEAR(year) ) {sysT += SECS_IN_YEAR(year);year--;}\<close> before the
  prime epoch and
  \<open>while( sysT >=  SECS_IN_YEAR(year) ) {sysT -= SECS_IN_YEAR(year);year++;}\<close> after it.
\<close>

function toDate_before :: "int \<Rightarrow> int \<Rightarrow> int \<times> int" where
  "toDate_before sysT y =
     (if sysT < - SECS_IN_YEAR y then toDate_before (sysT + SECS_IN_YEAR y) (y - 1)
      else (sysT, y))"
  by pat_completeness auto
termination
  by (relation "measure (\<lambda>(sysT, y). nat (- sysT))")
    (auto simp: SECS_IN_YEAR_def DAYS_IN_YEAR_def SECS_IN_DAY_def split: if_splits)

function toDate_after :: "int \<Rightarrow> int \<Rightarrow> int \<times> int" where
  "toDate_after sysT y =
     (if sysT \<ge> SECS_IN_YEAR y then toDate_after (sysT - SECS_IN_YEAR y) (y + 1)
      else (sysT, y))"
  by pat_completeness auto
termination
  by (relation "measure (\<lambda>(sysT, y). nat sysT)")
    (auto simp: SECS_IN_YEAR_def DAYS_IN_YEAR_def SECS_IN_DAY_def split: if_splits)

text \<open>
  \<open>for( ; (month<11) && (days>=MONTH_DAYS(month,y)); month++ ) {days -= MONTH_DAYS(month,y);}\<close>
\<close>

function toDate_months :: "int \<Rightarrow> int \<Rightarrow> int \<Rightarrow> (int \<times> int) option" where
  "toDate_months mo days y =
     (if mo < 11
      then (case MONTH_DAYS mo y of
              None \<Rightarrow> None
            | Some n \<Rightarrow> if days \<ge> n then toDate_months (mo + 1) (days - n) y
                        else Some (mo, days))
      else Some (mo, days))"
  by pat_completeness auto
termination
  by (relation "measure (\<lambda>(mo, days, y). nat (11 - mo))") auto

definition toDate :: "int \<Rightarrow> Date option" where
  "toDate s =
     (let beforePrimeEpoch = (s < 0);
          (sysT, y) = (if beforePrimeEpoch then toDate_before s 1899 else toDate_after s 1900);
          secs' = (if beforePrimeEpoch then SECS_IN_YEAR y + sysT else sysT);
          days = secs' sdiv SECS_IN_DAY
      in case toDate_months 0 days y of
           None \<Rightarrow> None
         | Some (mo, days') \<Rightarrow> Some \<lparr>month = mo + 1, day = days' + 1, year = y\<rparr>)"

text \<open>
  \<open>Time Instant::toTime(int64_t secs)\<close>:
  \<open>seconds = seconds%SECS_IN_DAY; seconds = ((seconds<0)?(SECS_IN_DAY+seconds):(seconds));
     result.hour = ((seconds/3600) % 24); result.min = ((seconds/60) % 60);
     result.sec = (seconds%60);\<close>
  The result starts as \<open>Time()\<close>, whose fraction is 0.
\<close>

definition toTime :: "int \<Rightarrow> Time" where
  "toTime s =
     (let seconds = s smod SECS_IN_DAY;
          seconds = (if seconds < 0 then SECS_IN_DAY + seconds else seconds)
      in \<lparr>hour = (seconds sdiv 3600) smod 24,
          min' = (seconds sdiv 60) smod 60,
          sec = seconds smod 60,
          fraction' = 0\<rparr>)"

subsection \<open>Date and time to seconds\<close>

text \<open>
  \<open>Instant Instant::toInstant(const Date& d, const Time& t)\<close>.  The year loops are
  \<open>for( ;year > d.year; year-- ) {sysTime -= SECS_IN_YEAR(year);}\<close> and
  \<open>for( ;year < d.year; year++ ) {sysTime += SECS_IN_YEAR(year);}\<close>, the month loop is
  \<open>for(;month < d.month; month++) {secsInYear += SECS_IN_MONTH(month,d.year);}\<close>.
\<close>

function toInstant_before :: "int \<Rightarrow> int \<Rightarrow> int \<Rightarrow> int" where
  "toInstant_before dyear y sysT =
     (if y > dyear then toInstant_before dyear (y - 1) (sysT - SECS_IN_YEAR y) else sysT)"
  by pat_completeness auto
termination
  by (relation "measure (\<lambda>(dyear, y, sysT). nat (y - dyear))") auto

function toInstant_after :: "int \<Rightarrow> int \<Rightarrow> int \<Rightarrow> int" where
  "toInstant_after dyear y sysT =
     (if y < dyear then toInstant_after dyear (y + 1) (sysT + SECS_IN_YEAR y) else sysT)"
  by pat_completeness auto
termination
  by (relation "measure (\<lambda>(dyear, y, sysT). nat (dyear - y))") auto

function toInstant_months :: "int \<Rightarrow> int \<Rightarrow> int \<Rightarrow> int \<Rightarrow> int option" where
  "toInstant_months dmonth dyear mo secsInYear =
     (if mo < dmonth
      then (case SECS_IN_MONTH mo dyear of
              None \<Rightarrow> None
            | Some n \<Rightarrow> toInstant_months dmonth dyear (mo + 1) (secsInYear + n))
      else Some secsInYear)"
  by pat_completeness auto
termination
  by (relation "measure (\<lambda>(dmonth, dyear, mo, secsInYear). nat (dmonth - mo))") auto

definition toInstant :: "Date \<Rightarrow> Time \<Rightarrow> Instant option" where
  "toInstant d t =
     (let beforePrimeEpoch = (year d < 1900);
          sysT = (if beforePrimeEpoch then toInstant_before (year d) 1899 0
                  else toInstant_after (year d) 1900 0)
      in case toInstant_months (month d) (year d) 1 0 of
           None \<Rightarrow> None
         | Some secsInMonths \<Rightarrow>
             (let secsInYear = secsInMonths + (day d - 1) * SECS_IN_DAY
                                + hour t * 3600 + min' t * 60 + sec t;
                  yearsComplimentSeconds = SECS_IN_YEAR (year d) - secsInYear;
                  sysT = sysT + (if beforePrimeEpoch then - yearsComplimentSeconds
                                 else secsInYear)
              in Some \<lparr>sysTime = word_of_int sysT, fraction = 0\<rparr>))"

text \<open>
  The recursive equations of the loops are applied one step at a time in the proofs.
\<close>

declare toInstant_after.simps [simp del] toInstant_before.simps [simp del]
  toDate_after.simps [simp del] toDate_before.simps [simp del]
  toDate_months.simps [simp del] toInstant_months.simps [simp del]

subsection \<open>Valid calendar values\<close>

text \<open>
  A date is valid when its month is in \<open>[1,12]\<close> and its day is between 1 and the number
  of days of that month in that year; its year is any value of the C++ type \<open>int\<close>
  (32 bits on the ESP8266 and ESP32 the library targets).  A time is valid when its hour
  is in \<open>[0,23]\<close> and its minute and second are in \<open>[0,59]\<close>.
\<close>

definition valid_date :: "Date \<Rightarrow> bool" where
  "valid_date d \<longleftrightarrow>
     1 \<le> month d \<and> month d \<le> 12
     \<and> (case MONTH_DAYS (month d - 1) (year d) of
          None \<Rightarrow> False
        | Some n \<Rightarrow> 1 \<le> day d \<and> day d \<le> n)
     \<and> - 2147483648 \<le> year d \<and> year d \<le> 2147483647"

definition valid_time :: "Time \<Rightarrow> bool" where
  "valid_time t \<longleftrightarrow>
     0 \<le> hour t \<and> hour t \<le> 23 \<and> 0 \<le> min' t \<and> min' t \<le> 59 \<and> 0 \<le> sec t \<and> sec t \<le> 59"

section \<open>Double precision\<close>

text \<open>
  A finite \<open>double\<close> is read as the real number it denotes: an integer significand below
  \<open>2^53\<close> in magnitude times a power of two, the exponent at least \<open>-1074\<close>.  An operation
  on doubles is the operation on the reals followed by \<open>rnd64\<close>, the rounding to the
  nearest double, ties to the even significand.  The largest exponent is not bounded:
  every value computed below stays far from the overflow threshold \<open>2^1024\<close>.  Infinities
  and NaN are not represented.
\<close>

definition is_double :: "real \<Rightarrow> bool" where
  "is_double x \<longleftrightarrow> (\<exists>m e. x = of_int m * 2 powi e \<and> \<bar>m\<bar> < 2 ^ 53 \<and> - 1074 \<le> e)"

definition rne :: "real \<Rightarrow> int" where
  "rne z =
     (let f = \<lfloor>z\<rfloor>; d = z - of_int f
      in if d < 1 / 2 then f else if d > 1 / 2 then f + 1 else if even f then f else f + 1)"

text \<open>The exponent of the leading bit: the floor of the binary logarithm of \<open>\<bar>x\<bar>\<close>.\<close>

definition ilog2 :: "real \<Rightarrow> int" where
  "ilog2 x = (if 1 \<le> \<bar>x\<bar> then bitlen \<lfloor>\<bar>x\<bar>\<rfloor> - 1 else - bitlen (\<lceil>1 / \<bar>x\<bar>\<rceil> - 1))"

definition rnd64 :: "real \<Rightarrow> real" where
  "rnd64 x =
     (if x = 0 then 0
      else (let e = max (ilog2 x - 52) (- 1074) in of_int (rne (x / 2 powi e)) * 2 powi e))"

definition to_double :: "int \<Rightarrow> real" where
  "to_double k = rnd64 (of_int k)"

definition dadd :: "real \<Rightarrow> real \<Rightarrow> real" where
  "dadd x y = rnd64 (x + y)"

definition dsub :: "real \<Rightarrow> real \<Rightarrow> real" where
  "dsub x y = rnd64 (x - y)"

definition dmul :: "real \<Rightarrow> real \<Rightarrow> real" where
  "dmul x y = rnd64 (x * y)"

definition ddiv :: "real \<Rightarrow> real \<Rightarrow> real" where
  "ddiv x y = rnd64 (x / y)"

text \<open>
  A conversion from \<open>double\<close> to an integer type drops the fractional part; C++ defines
  it only when the truncated value belongs to the type.  \<open>None\<close> is the undefined case.
\<close>

definition trunc :: "real \<Rightarrow> int" where
  "trunc x = (if 0 \<le> x then \<lfloor>x\<rfloor> else \<lceil>x\<rceil>)"

definition double_to_int :: "int \<Rightarrow> int \<Rightarrow> real \<Rightarrow> int option" where
  "double_to_int lo hi x = (let k = trunc x in if lo \<le> k \<and> k \<le> hi then Some k else None)"

text \<open>
  \<open>double sysTimed() const
     {return((double)_sysTime+((double)_fraction/(double)POW2_32));}\<close>
\<close>

definition sysTimed :: "Instant \<Rightarrow> real" where
  "sysTimed t =
     dadd (to_double (secs t)) (ddiv (to_double (uint (fraction t))) (to_double POW2_32))"

text \<open>
  \<open>void Instant::initialize(double sysd) {
     _sysTime = (int64_t)sysd;
     double diff = sysd-(double)_sysTime;
     _fraction = diff*POW2_32;
     if(sysd<0 && (_fraction>0)) _sysTime -=1; }\<close>
\<close>

definition initialize_double :: "real \<Rightarrow> Instant option" where
  "initialize_double sysd =
     (case double_to_int (- (2 ^ 63)) (2 ^ 63 - 1) sysd of
        None \<Rightarrow> None
      | Some s \<Rightarrow>
          (let diff = dsub sysd (to_double s)
           in case double_to_int 0 (2 ^ 32 - 1) (dmul diff (to_double POW2_32)) of
                None \<Rightarrow> None
              | Some f \<Rightarrow>
                  Some \<lparr>sysTime = word_of_int (if sysd < 0 \<and> f > 0 then s - 1 else s),
                        fraction = word_of_int f\<rparr>))"

text \<open>
  \<open>Instant Instant::operator/(const int denom) const {
     double sysT = sysTimed()/(double)denom;
     Instant result(sysT);
     return result; }\<close>
  A zero denominator gives an infinity or NaN, whose conversion is undefined.
\<close>

definition Instant_div :: "Instant \<Rightarrow> int \<Rightarrow> Instant option" where
  "Instant_div t denom =
     (if denom = 0 then None else initialize_double (ddiv (sysTimed t) (to_double denom)))"

text \<open>
  \<open>int32_t Instant::tzOffset( double hours ) {
     int32_t result = 0;
     int h = ((hours<=-14)?(-14):((hours>14)?(14):((int)hours)));
     double fraction = hours - h;
     if( fraction < 0 ) {
        fraction = ((fraction<=-.75)?(-.75):((fraction<=-.5)?(-.5):(-.25)));
     }
     else if (fraction > 0 ) {
        fraction = ((fraction>=.75)?(.75):((fraction>=.5)?(.5):(.25)));
     }
     result = (int32_t)(3600.0*(double)h + 3600.0*fraction);
     return result; }\<close>
\<close>

definition tzOffset :: "real \<Rightarrow> int option" where
  "tzOffset hours =
     (let h = (if hours \<le> - 14 then - 14 else if hours > 14 then 14 else trunc hours);
          fr = dsub hours (to_double h);
          fr = (if fr < 0
                then (if fr \<le> - 0.75 then - 0.75 else if fr \<le> - 0.5 then - 0.5 else - 0.25)
                else if fr > 0
                then (if fr \<ge> 0.75 then 0.75 else if fr \<ge> 0.5 then 0.5 else 0.25)
                else fr)
      in double_to_int (- (2 ^ 31)) (2 ^ 31 - 1)
           (dadd (dmul 3600 (to_double h)) (dmul 3600 fr)))"

text \<open>
  The reading of \<open>tzOffset\<close> in the specification: the hours are clamped to
  \<open>[-14, 14]\<close>, the magnitude of their fractional part is truncated down to a multiple
  of a quarter hour, and the result is 3600 times the whole hours plus 3600 times the
  snapped fraction.
\<close>

definition tzOffset_claimed :: "real \<Rightarrow> int" where
  "tzOffset_claimed hours =
     (let c = (if hours < - 14 then - 14 else if hours > 14 then 14 else hours);
          whole = trunc c;
          fr = c - of_int whole
      in 3600 * whole + 900 * trunc (4 * fr))"

section \<open>The clock offset of an NTP exchange\<close>

text \<open>
  \<open>int NTPTime::getNTPTimestamp(uint32_t& rcvSecs, uint32_t& rcvFraction, uint32_t& tsmSecs,
     uint32_t& tsmFraction, ...)\<close> talks to the network.  Its outcome is the returned
  status, 1 on success, and the four output words.
\<close>

record NTPTimestamp =
  status :: int
  rcvSecs :: uint32_t
  rcvFraction :: uint32_t
  tsmSecs :: uint32_t
  tsmFraction :: uint32_t

text \<open>
  \<open>Instant NTPTime::getNTPOffset(Timestamp& t1, Timestamp& t2, Timestamp& t3, Timestamp& t4,
     const Timestamp& ref, ...)\<close>.  The instants \<open>T1 = t1.ntpTime()\<close> and
  \<open>T4 = t4.ntpTime()\<close> come from stamping the millisecond clock before and after the
  request, and the request's outcome from the network: the three are arguments here.
  The result holds the instants \<open>T2\<close> and \<open>T3\<close>, the instants of the output timestamps
  \<open>t2\<close> and \<open>t3\<close> (initialized to the zero instant, then \<open>t2 += T2; t3 += T3;\<close>) and
  the returned \<open>((T2-T1)+(T3-T4))/2\<close>.
\<close>

record NTPOffset =
  T2 :: Instant
  T3 :: Instant
  t2_ntpTime :: Instant
  t3_ntpTime :: Instant
  clockOffset :: "Instant option"

definition getNTPOffset :: "Instant \<Rightarrow> Instant \<Rightarrow> NTPTimestamp \<Rightarrow> NTPOffset" where
  "getNTPOffset T1 T4 r =
     (let T1Era = era T1;
          T4Era = era T4;
          (T2', T3') =
            (if status r = 1
             then (let rcvDiff = uint (eraOffset T1) - uint (rcvSecs r);
                       tsmDiff = uint (eraOffset T4) - uint (tsmSecs r)
                   in ((if rcvDiff > SECS_IN_68_YEARS
                        then initialize (T1Era + 1) (rcvSecs r) (rcvFraction r)
                        else if rcvDiff < - SECS_IN_68_YEARS
                        then initialize (T1Era - 1) (rcvSecs r) (rcvFraction r)
                        else initialize T1Era (rcvSecs r) (rcvFraction r)),
                       (if tsmDiff > SECS_IN_68_YEARS
                        then initialize (T4Era + 1) (tsmSecs r) (tsmFraction r)
                        else if tsmDiff < - SECS_IN_68_YEARS
                        then initialize (T4Era - 1) (tsmSecs r) (tsmFraction r)
                        else initialize T4Era (tsmSecs r) (tsmFraction r))))
             else (T1, T4))
      in \<lparr>T2 = T2', T3 = T3',
          t2_ntpTime = Instant_add Instant_zero T2',
          t3_ntpTime = Instant_add Instant_zero T3',
          clockOffset = Instant_div (Instant_add (Instant_sub T2' T1) (Instant_sub T3' T4)) 2\<rparr>)"

section \<open>Truncating and flooring division\<close>

lemma smod_pos_divisor:
  fixes s b :: int
  assumes "0 < b"
  shows "s smod b = (if 0 \<le> s \<or> s mod b = 0 then s mod b else s mod b - b)"
proof (cases "0 \<le> s")
  case True
  then show ?thesis using assms by (simp add: signed_modulo_int_def sgn_if)
next
  case False
  then have neg: "s < 0" by simp
  have ab: "\<bar>s\<bar> = - s" "\<bar>b\<bar> = b" "sgn s = - 1" using neg assms by simp_all
  have "(- s) mod b = (if s mod b = 0 then 0 else b - s mod b)"
    by (rule zmod_zminus1_eq_if)
  then show ?thesis using neg unfolding signed_modulo_int_def ab by auto
qed

lemma sdiv_pos_divisor:
  fixes s b :: int
  assumes "0 < b"
  shows "s sdiv b = (if 0 \<le> s \<or> s mod b = 0 then s div b else s div b + 1)"
proof (cases "0 \<le> s")
  case True
  then show ?thesis using assms by (simp add: signed_divide_int_def sgn_if)
next
  case False
  then have neg: "s < 0" by simp
  have ab: "\<bar>s\<bar> = - s" "\<bar>b\<bar> = b" "sgn s = - 1" "sgn b = 1" using neg assms by simp_all
  have "(- s) div b = (if s mod b = 0 then - (s div b) else - (s div b) - 1)"
    by (rule zdiv_zminus1_eq_if) (use assms in simp)
  then show ?thesis using neg unfolding signed_divide_int_def ab by auto
qed

lemma smod_negative_iff:
  fixes s b :: int
  assumes "0 < b"
  shows "s smod b < 0 \<longleftrightarrow> s < 0 \<and> s mod b \<noteq> 0"
proof -
  have "0 \<le> s mod b" "s mod b < b" using assms by simp_all
  then show ?thesis unfolding smod_pos_divisor [OF assms] by auto
qed

lemma div_2_32_range:
  fixes s :: int
  assumes "- (2 ^ 63) \<le> s" "s < 2 ^ 63"
  shows "- (2 ^ 31) \<le> s div 4294967296" "s div 4294967296 < 2 ^ 31"
  using assms by simp_all

lemma secs_range: "- (2 ^ 63) \<le> secs t" "secs t < 2 ^ 63"
  using sint_ge [of "sysTime t"] sint_lt [of "sysTime t"] by (simp_all add: secs_def)

lemma sint_int32_id:
  "- (2 ^ 31) \<le> x \<Longrightarrow> x < 2 ^ 31 \<Longrightarrow> sint (word_of_int x :: int32_t) = x"
  by (simp add: sint_sbintrunc' signed_take_bit_int_eq_self)

lemma sint_int64_id:
  "- (2 ^ 63) \<le> x \<Longrightarrow> x < 2 ^ 63 \<Longrightarrow> sint (word_of_int x :: int64_t) = x"
  by (simp add: sint_sbintrunc' signed_take_bit_int_eq_self)

lemma era_floor: "sint (era t) = secs t div POW2_32"
proof -
  have pos: "0 < POW2_32" by (simp add: POW2_32_def)
  have eq: "(if secs t smod POW2_32 < 0 then (secs t sdiv POW2_32) - 1 else secs t sdiv POW2_32)
      = secs t div POW2_32"
    using pos by (auto simp: smod_negative_iff sdiv_pos_divisor)
  have "sint (word_of_int (secs t div 4294967296) :: int32_t) = secs t div 4294967296"
    by (rule sint_int32_id) (rule div_2_32_range [OF secs_range])+
  then show ?thesis
    unfolding era_def eq by (simp add: POW2_32_def)
qed

lemma eraOffset_floor: "uint (eraOffset t) = secs t mod POW2_32"
proof -
  define r where "r = secs t smod POW2_32"
  define result where "result = sint (word_of_int r :: int32_t)"
  have res: "result = signed_take_bit 31 r"
    by (simp add: result_def sint_sbintrunc')
  have unf: "eraOffset t = word_of_int (if result < 0 then result + POW2_32 else result)"
    by (simp add: eraOffset_def Let_def result_def r_def)
  have "uint (eraOffset t) = take_bit 32 (if result < 0 then result + POW2_32 else result)"
    unfolding unf by (simp add: uint_word_of_int take_bit_eq_mod)
  also have "\<dots> = take_bit 32 result"
    by (simp add: take_bit_eq_mod POW2_32_def)
  also have "\<dots> = take_bit 32 r"
    unfolding res by (simp add: take_bit_signed_take_bit)
  also have "\<dots> = secs t mod POW2_32"
    by (simp add: r_def take_bit_eq_mod smod_pos_divisor POW2_32_def)
  finally show ?thesis .
qed

section \<open>Era decomposition\<close>

text \<open>
  Claim C2.  For every signed 64-bit seconds value held by an Instant, the era times
  \<open>2^32\<close> plus the era offset is the seconds value, and the era offset lies in
  \<open>[0, 2^32)\<close>: it is non-negative also when the seconds are negative.
\<close>

theorem era_eraOffset_invariant:
  "sint (era t) * 2 ^ 32 + uint (eraOffset t) = secs t
   \<and> 0 \<le> uint (eraOffset t) \<and> uint (eraOffset t) < 2 ^ 32"
proof -
  have "sint (era t) * 2 ^ 32 + uint (eraOffset t) = secs t"
    by (simp add: era_floor eraOffset_floor POW2_32_def)
  moreover have "uint (eraOffset t) < 2 ^ 32"
    using uint_bounded [of "eraOffset t"] by simp
  ultimately show ?thesis by simp
qed

lemma sint32_bounds: "- 2147483648 \<le> sint (e :: int32_t)" "sint (e :: int32_t) < 2147483648"
  using sint_ge [of e] sint_lt [of e] by simp_all

lemma uint32_bounds: "0 \<le> uint (w :: uint32_t)" "uint (w :: uint32_t) < 4294967296"
  using uint_bounded [of w] by simp_all

lemma uint32_id: "0 \<le> x \<Longrightarrow> x < 4294967296 \<Longrightarrow> uint (word_of_int x :: uint32_t) = x"
  by (simp add: uint_word_of_int take_bit_eq_mod)

lemma secs_initialize: "secs (initialize e o' f) = sint e * POW2_32 + uint o'"
proof -
  have "- 9223372036854775808 \<le> sint e * 4294967296 + uint o'"
    "sint e * 4294967296 + uint o' < 9223372036854775808"
    using sint32_bounds [of e] uint32_bounds [of o'] by linarith+
  then have "sint (word_of_int (sint e * 4294967296 + uint o') :: int64_t)
      = sint e * 4294967296 + uint o'"
    by (intro sint_int64_id) simp_all
  then show ?thesis
    unfolding secs_def initialize_def POW2_32_def by (simp only: Instant.select_convs)
qed

lemma era_initialize: "era (initialize e o' f) = e"
proof -
  note o = uint32_bounds [of o']
  have "sint (era (initialize e o' f)) = sint e"
    using o by (simp add: era_floor secs_initialize POW2_32_def)
  then show ?thesis by (rule signed_word_eqI)
qed

lemma eraOffset_initialize: "eraOffset (initialize e o' f) = o'"
proof -
  note o = uint32_bounds [of o']
  have "uint (eraOffset (initialize e o' f)) = uint o'"
    using o by (simp add: eraOffset_floor secs_initialize POW2_32_def)
  then show ?thesis by (rule word_uint_eqI)
qed

lemma fraction_initialize: "fraction (initialize e o' f) = f"
  by (simp add: initialize_def)

text \<open>
  Claim C10.  For every signed 32-bit era \<open>e\<close>, unsigned 32-bit era offset \<open>o\<close> and
  unsigned 32-bit fraction \<open>f\<close>, the Instant constructed from \<open>(e, o, f)\<close> has era \<open>e\<close>,
  era offset \<open>o\<close> and fraction \<open>f\<close>.
\<close>

theorem initialize_era_inverse:
  "era (initialize e o' f) = e \<and> eraOffset (initialize e o' f) = o'
   \<and> fraction (initialize e o' f) = f"
  by (simp add: era_initialize eraOffset_initialize fraction_initialize)

section \<open>Addition and negation\<close>

lemma Instant_add_sysTime:
  "sysTime (Instant_add a b) =
     sysTime a + sysTime b + (if 2 ^ 32 \<le> uint (fraction a) + uint (fraction b) then 1 else 0)"
  by (simp add: Instant_add_def Let_def POW2_32_def)

lemma Instant_add_secs:
  "secs (Instant_add a b) =
     signed_take_bit 63
       (secs a + secs b + (if 2 ^ 32 \<le> uint (fraction a) + uint (fraction b) then 1 else 0))"
proof -
  have w: "sysTime a + sysTime b + c = word_of_int (sint (sysTime a) + sint (sysTime b) + sint c)"
    for c :: int64_t
    by simp
  have "sint (sysTime a + sysTime b + c)
      = signed_take_bit 63 (sint (sysTime a) + sint (sysTime b) + sint c)"
    for c :: int64_t
    unfolding w by (simp only: sint_sbintrunc') simp
  from this [of 0] this [of 1] show ?thesis
    unfolding secs_def Instant_add_sysTime by simp
qed

lemma Instant_add_secs_in_range:
  assumes "- (2 ^ 63) \<le> secs a + secs b" "secs a + secs b + 1 < 2 ^ 63"
  shows "secs (Instant_add a b) =
     secs a + secs b + (if 2 ^ 32 \<le> uint (fraction a) + uint (fraction b) then 1 else 0)"
  unfolding Instant_add_secs using assms by (simp add: signed_take_bit_int_eq_self)

lemma Instant_add_fraction:
  "uint (fraction (Instant_add a b)) =
     (if 2 ^ 32 \<le> uint (fraction a) + uint (fraction b)
      then uint (fraction a) + uint (fraction b) - 2 ^ 32
      else uint (fraction a) + uint (fraction b))"
proof -
  note b = uint32_bounds [of "fraction a"] uint32_bounds [of "fraction b"]
  show ?thesis
  proof (cases "4294967296 \<le> uint (fraction a) + uint (fraction b)")
    case True
    have "uint (word_of_int (uint (fraction a) + uint (fraction b) - 4294967296) :: uint32_t)
        = uint (fraction a) + uint (fraction b) - 4294967296"
      by (rule uint32_id) (use True b in linarith)+
    then show ?thesis using True
      unfolding Instant_add_def Let_def POW2_32_def
      by (simp only: if_True Instant.select_convs) simp
  next
    case False
    have "uint (word_of_int (uint (fraction a) + uint (fraction b)) :: uint32_t)
        = uint (fraction a) + uint (fraction b)"
      by (rule uint32_id) (use False b in linarith)+
    then show ?thesis using False
      unfolding Instant_add_def Let_def POW2_32_def
      by (simp only: if_False Instant.select_convs) simp
  qed
qed

text \<open>
  Claim C5.  For every two Instants, addition sums the seconds and sums the fractions
  with a carry: when the two fractions sum to \<open>2^32\<close> or more, the seconds of the result
  are the sum of the seconds plus exactly 1 and its fraction is the fraction sum minus
  \<open>2^32\<close>; otherwise the seconds are just summed and the fraction is the fraction sum.
  The seconds are summed in \<open>int64_t\<close>: \<open>signed_take_bit 63\<close> is the identity on every
  sum that \<open>int64_t\<close> holds.
\<close>

theorem Instant_add_carry:
  "secs (Instant_add a b) =
     signed_take_bit 63
       (secs a + secs b + (if 2 ^ 32 \<le> uint (fraction a) + uint (fraction b) then 1 else 0))
   \<and> uint (fraction (Instant_add a b)) =
     (if 2 ^ 32 \<le> uint (fraction a) + uint (fraction b)
      then uint (fraction a) + uint (fraction b) - 2 ^ 32
      else uint (fraction a) + uint (fraction b))"
  using Instant_add_secs [of a b] Instant_add_fraction [of a b] by (rule conjI)

lemma Instant_neg_fraction:
  "uint (fraction (Instant_neg x)) = (if fraction x = 0 then 0 else 2 ^ 32 - uint (fraction x))"
proof (cases "fraction x = 0")
  case True
  then show ?thesis by (simp add: Instant_neg_def Let_def POW2_32_def)
next
  case False
  then have "uint (fraction x) \<noteq> 0" by (simp add: uint_0_iff)
  then have "0 \<le> 4294967296 - uint (fraction x)" "4294967296 - uint (fraction x) < 4294967296"
    using uint32_bounds [of "fraction x"] by linarith+
  then have "uint (word_of_int (4294967296 - uint (fraction x)) :: uint32_t)
      = 4294967296 - uint (fraction x)"
    by (rule uint32_id)
  then show ?thesis using False
    unfolding Instant_neg_def Let_def POW2_32_def by (simp only: Instant.select_convs) simp
qed

lemma Instant_neg_fraction_zero_iff: "fraction (Instant_neg x) = 0 \<longleftrightarrow> fraction x = 0"
proof -
  have "uint (fraction (Instant_neg x)) = 0 \<longleftrightarrow> fraction x = 0"
    using uint32_bounds [of "fraction x"] by (simp add: Instant_neg_fraction)
  then show ?thesis by (simp add: uint_0_iff)
qed

lemma Instant_neg_sysTime:
  "sysTime (Instant_neg x) = - sysTime x - (if fraction x = 0 then 0 else 1)"
proof -
  have "sysTime (Instant_neg x)
      = (if fraction (Instant_neg x) \<noteq> 0 then - sysTime x - 1 else - sysTime x)"
    by (simp add: Instant_neg_def Let_def)
  then show ?thesis by (simp add: Instant_neg_fraction_zero_iff)
qed

lemma Instant_add_neg: "Instant_add x (Instant_neg x) = Instant_zero"
proof (cases "fraction x = 0")
  case True
  have "uint (fraction x) + uint (fraction (Instant_neg x)) = 0"
    using True by (simp add: Instant_neg_fraction)
  then show ?thesis
    using True
    by (simp add: Instant_add_def Let_def POW2_32_def Instant_neg_sysTime Instant_zero_def)
next
  case False
  have "uint (fraction x) + uint (fraction (Instant_neg x)) = 4294967296"
    using False by (simp add: Instant_neg_fraction)
  then show ?thesis
    using False
    by (simp add: Instant_add_def Let_def POW2_32_def Instant_neg_sysTime Instant_zero_def)
qed

text \<open>
  Claim C6.  For every Instant \<open>x\<close>, \<open>x + (-x)\<close> has seconds 0 and fraction 0, where
  negation computes the fraction as \<open>2^32 - fraction\<close> with a borrow of one second
  exactly when the original fraction was non-zero.  Seconds are \<open>int64_t\<close> words, whose
  negation and subtraction wrap around.
\<close>

theorem Instant_add_neg_zero:
  "sysTime (Instant_add x (Instant_neg x)) = 0 \<and> fraction (Instant_add x (Instant_neg x)) = 0
   \<and> uint (fraction (Instant_neg x)) = (if fraction x = 0 then 0 else 2 ^ 32 - uint (fraction x))
   \<and> sysTime (Instant_neg x) = - sysTime x - (if fraction x = 0 then 0 else 1)"
  using Instant_neg_fraction [of x] Instant_neg_sysTime [of x]
  by (simp add: Instant_add_neg Instant_zero_def)

section \<open>Era resolution of the server timestamps\<close>

lemma getNTPOffset_T2_success:
  assumes "status r = 1"
  shows "T2 (getNTPOffset T1 T4 r) =
     initialize
       (if uint (eraOffset T1) - uint (rcvSecs r) > SECS_IN_68_YEARS then era T1 + 1
        else if uint (eraOffset T1) - uint (rcvSecs r) < - SECS_IN_68_YEARS then era T1 - 1
        else era T1)
       (rcvSecs r) (rcvFraction r)"
  using assms by (simp add: getNTPOffset_def Let_def)

lemma getNTPOffset_T3_success:
  assumes "status r = 1"
  shows "T3 (getNTPOffset T1 T4 r) =
     initialize
       (if uint (eraOffset T4) - uint (tsmSecs r) > SECS_IN_68_YEARS then era T4 + 1
        else if uint (eraOffset T4) - uint (tsmSecs r) < - SECS_IN_68_YEARS then era T4 - 1
        else era T4)
       (tsmSecs r) (tsmFraction r)"
  using assms by (simp add: getNTPOffset_def Let_def)

lemma era_straddle_next_era:
  assumes "status r = 1" "uint (eraOffset T1) - uint (rcvSecs r) > 2144448000"
  shows "era (T2 (getNTPOffset T1 T4 r)) = era T1 + 1"
  unfolding getNTPOffset_T2_success [OF assms(1)] era_initialize
  using assms(2) by (simp add: SECS_IN_68_YEARS_def)

text \<open>
  Claim C3.  On a successful exchange the era of each raw server timestamp is resolved
  against the local era offset (that of \<open>T1\<close> for \<open>T2\<close>, that of \<open>T4\<close> for \<open>T3\<close>): when
  the local era offset minus the server seconds exceeds 68 years of seconds the server
  timestamp gets the local era plus one, when it is below minus 68 years of seconds the
  local era minus one, otherwise the local era.  The server seconds and fraction become
  the era offset and the fraction.  Eras are \<open>int32_t\<close> words.
\<close>

theorem getNTPOffset_era_resolution:
  assumes "status r = 1"
  shows "era (T2 (getNTPOffset T1 T4 r)) =
       (if uint (eraOffset T1) - uint (rcvSecs r) > 68 * 365 * 86400 then era T1 + 1
        else if uint (eraOffset T1) - uint (rcvSecs r) < - (68 * 365 * 86400) then era T1 - 1
        else era T1)
     \<and> eraOffset (T2 (getNTPOffset T1 T4 r)) = rcvSecs r
     \<and> fraction (T2 (getNTPOffset T1 T4 r)) = rcvFraction r
     \<and> era (T3 (getNTPOffset T1 T4 r)) =
       (if uint (eraOffset T4) - uint (tsmSecs r) > 68 * 365 * 86400 then era T4 + 1
        else if uint (eraOffset T4) - uint (tsmSecs r) < - (68 * 365 * 86400) then era T4 - 1
        else era T4)
     \<and> eraOffset (T3 (getNTPOffset T1 T4 r)) = tsmSecs r
     \<and> fraction (T3 (getNTPOffset T1 T4 r)) = tsmFraction r"
  unfolding getNTPOffset_T2_success [OF assms] getNTPOffset_T3_success [OF assms]
    era_initialize eraOffset_initialize fraction_initialize
  by (simp add: SECS_IN_68_YEARS_def)

text \<open>
  The era straddle: the local clock stands at the last second of era 0, era offset
  \<open>2^32 - 1\<close>, and the server reports the offsets 1 and 3.  Both server timestamps get
  era 1.
\<close>

theorem getNTPOffset_era_resolution_witness:
  "status \<lparr>status = 1, rcvSecs = 1, rcvFraction = 2, tsmSecs = 3, tsmFraction = 4\<rparr> = 1
   \<and> era (T2 (getNTPOffset \<lparr>sysTime = 4294967295, fraction = 0\<rparr>
         \<lparr>sysTime = 4294967295, fraction = 7\<rparr>
         \<lparr>status = 1, rcvSecs = 1, rcvFraction = 2, tsmSecs = 3, tsmFraction = 4\<rparr>)) = 1
   \<and> era (T3 (getNTPOffset \<lparr>sysTime = 4294967295, fraction = 0\<rparr>
         \<lparr>sysTime = 4294967295, fraction = 7\<rparr>
         \<lparr>status = 1, rcvSecs = 1, rcvFraction = 2, tsmSecs = 3, tsmFraction = 4\<rparr>)) = 1"
proof -
  let ?r = "\<lparr>status = 1, rcvSecs = 1, rcvFraction = 2, tsmSecs = 3, tsmFraction = 4\<rparr>"
  have s: "status ?r = 1" by simp
  have e1: "era \<lparr>sysTime = 4294967295, fraction = 0\<rparr> = 0" by code_simp
  have e4: "era \<lparr>sysTime = 4294967295, fraction = 7\<rparr> = 0" by code_simp
  have o1: "uint (eraOffset \<lparr>sysTime = 4294967295, fraction = 0\<rparr>) = 4294967295"
    by code_simp
  have o4: "uint (eraOffset \<lparr>sysTime = 4294967295, fraction = 7\<rparr>) = 4294967295"
    by code_simp
  show ?thesis
    using getNTPOffset_era_resolution [OF s, of "\<lparr>sysTime = 4294967295, fraction = 0\<rparr>"
        "\<lparr>sysTime = 4294967295, fraction = 7\<rparr>"]
    by (simp add: e1 e4 o1 o4)
qed

section \<open>Construction of calendar values\<close>

text \<open>
  Claim C8.  Constructing a Date or Time never fails and clamps every field into its
  valid range: the hour into \<open>[0,23]\<close>, the day into \<open>[1, days in the month]\<close>.  The
  three-argument \<open>Time\<close> constructor compares the hour with 59, where the four-argument
  one compares it with 24: hour 30 stays.  The \<open>Date\<close> constructor passes the month
  counted from 1 to \<open>MONTH_DAYS\<close>, which counts from 0 (as \<open>SECS_IN_MONTH\<close> shows):
  February is given the 31 days of March, and December reads past the table.
\<close>

theorem constructors_not_clamped:
  "hour (Time3 30 0 0) = 30 \<and> hour (Time4 30 0 0 0) = 23
   \<and> Date3 2 31 2023 = Some \<lparr>month = 2, day = 31, year = 2023\<rparr>
   \<and> MONTH_DAYS (2 - 1) 2023 = Some 28
   \<and> Date3 12 25 2023 = None"
  by (simp add: Time3_def Time4_def Date3_def MONTH_DAYS_def daysPerMonth_at_def daysPerMonth_def
      IS_LEAP_YEAR_def signed_modulo_int_def)

section \<open>A failed exchange leaves the clock alone\<close>

lemma rnd64_zero: "rnd64 0 = 0"
  by (simp add: rnd64_def)

lemma to_double_zero: "to_double 0 = 0"
  by (simp add: to_double_def rnd64_zero)

lemma sysTimed_zero: "sysTimed Instant_zero = 0"
  by (simp add: sysTimed_def Instant_zero_def secs_def dadd_def ddiv_def to_double_zero rnd64_zero)

lemma initialize_double_zero: "initialize_double 0 = Some Instant_zero"
  by (simp add: initialize_double_def double_to_int_def trunc_def dsub_def dmul_def
      to_double_zero rnd64_zero Instant_zero_def)

lemma Instant_div_zero: "denom \<noteq> 0 \<Longrightarrow> Instant_div Instant_zero denom = Some Instant_zero"
  by (simp add: Instant_div_def sysTimed_zero ddiv_def rnd64_zero initialize_double_zero)

lemma Instant_add_zero_zero: "Instant_add Instant_zero Instant_zero = Instant_zero"
  by (simp add: Instant_add_def Instant_zero_def POW2_32_def)

lemma Instant_add_zero_left: "Instant_add Instant_zero x = x"
proof -
  have "uint (fraction x) < 4294967296" by (rule uint32_bounds)
  then show ?thesis
    by (simp add: Instant_add_def Instant_zero_def POW2_32_def)
qed

lemma Instant_sub_self: "Instant_sub x x = Instant_zero"
  by (simp add: Instant_sub_def Instant_add_neg)

text \<open>
  Claim C4.  When the timestamp request reports failure (any status other than 1),
  \<open>getNTPOffset\<close> sets \<open>T2\<close> to \<open>T1\<close> and \<open>T3\<close> to \<open>T4\<close>, and the clock offset it returns
  has seconds 0 and fraction 0, whatever \<open>T1\<close> and \<open>T4\<close> are.  Both differences are the
  zero Instant, and so is their sum; its halving goes through the doubles
  \<open>0.0 + 0.0/2^32\<close> and \<open>0.0/2\<close>, which are exact.
\<close>

theorem getNTPOffset_failure:
  assumes "status r \<noteq> 1"
  shows "T2 (getNTPOffset T1 T4 r) = T1 \<and> T3 (getNTPOffset T1 T4 r) = T4
     \<and> t2_ntpTime (getNTPOffset T1 T4 r) = T1 \<and> t3_ntpTime (getNTPOffset T1 T4 r) = T4
     \<and> clockOffset (getNTPOffset T1 T4 r) = Some \<lparr>sysTime = 0, fraction = 0\<rparr>"
  using assms
  by (simp add: getNTPOffset_def Instant_sub_self Instant_add_zero_zero Instant_div_zero
      Instant_add_zero_left flip: Instant_zero_def)

text \<open>A timeout (status -3) between two local stamps of the year 2024.\<close>

theorem getNTPOffset_failure_witness:
  "status \<lparr>status = - 3, rcvSecs = 0, rcvFraction = 0, tsmSecs = 0, tsmFraction = 0\<rparr> \<noteq> 1
   \<and> clockOffset (getNTPOffset \<lparr>sysTime = 3913056000, fraction = 5\<rparr>
         \<lparr>sysTime = 3913056002, fraction = 9\<rparr>
         \<lparr>status = - 3, rcvSecs = 0, rcvFraction = 0, tsmSecs = 0, tsmFraction = 0\<rparr>)
     = Some \<lparr>sysTime = 0, fraction = 0\<rparr>
   \<and> T2 (getNTPOffset \<lparr>sysTime = 3913056000, fraction = 5\<rparr>
         \<lparr>sysTime = 3913056002, fraction = 9\<rparr>
         \<lparr>status = - 3, rcvSecs = 0, rcvFraction = 0, tsmSecs = 0, tsmFraction = 0\<rparr>)
     = \<lparr>sysTime = 3913056000, fraction = 5\<rparr>"
proof -
  let ?r = "\<lparr>status = - 3, rcvSecs = 0, rcvFraction = 0, tsmSecs = 0, tsmFraction = 0\<rparr>"
  have s: "status ?r \<noteq> 1" by simp
  show ?thesis
    using getNTPOffset_failure [OF s, of "\<lparr>sysTime = 3913056000, fraction = 5\<rparr>"
        "\<lparr>sysTime = 3913056002, fraction = 9\<rparr>"]
    by simp
qed

section \<open>The calendar round trip\<close>

lemma SECS_IN_YEAR_bounds: "31536000 \<le> SECS_IN_YEAR y" "SECS_IN_YEAR y \<le> 31622400"
  by (simp_all add: SECS_IN_YEAR_def DAYS_IN_YEAR_def SECS_IN_DAY_def)

lemma SECS_IN_YEAR_days: "SECS_IN_YEAR y = 86400 * DAYS_IN_YEAR y"
  by (simp add: SECS_IN_YEAR_def SECS_IN_DAY_def)

lemma toInstant_after_acc: "toInstant_after Y y (a + b) = a + toInstant_after Y y b"
proof (induction Y y b arbitrary: a rule: toInstant_after.induct)
  case (1 dyear y sysT)
  show ?case
  proof (cases "y < dyear")
    case True
    have "toInstant_after dyear y (a + sysT) = toInstant_after dyear (y + 1) (a + (sysT + SECS_IN_YEAR y))"
      using True by (simp add: toInstant_after.simps [of dyear y] add.assoc)
    also have "\<dots> = a + toInstant_after dyear (y + 1) (sysT + SECS_IN_YEAR y)"
      using "1.IH" [OF True] .
    also have "\<dots> = a + toInstant_after dyear y sysT"
      using True by (simp add: toInstant_after.simps [of dyear y])
    finally show ?thesis .
  next
    case False
    then show ?thesis by (simp add: toInstant_after.simps [of dyear y])
  qed
qed

lemma toInstant_after_step:
  "y < Y \<Longrightarrow> toInstant_after Y y 0 = SECS_IN_YEAR y + toInstant_after Y (y + 1) 0"
  using toInstant_after_acc [of Y "y + 1" "SECS_IN_YEAR y" 0]
  by (simp add: toInstant_after.simps [of Y y 0])

lemma toInstant_after_stop: "Y \<le> y \<Longrightarrow> toInstant_after Y y 0 = 0"
  by (simp add: toInstant_after.simps [of Y y 0])

lemma toInstant_before_acc: "toInstant_before Y y (a + b) = a + toInstant_before Y y b"
proof (induction Y y b arbitrary: a rule: toInstant_before.induct)
  case (1 dyear y sysT)
  show ?case
  proof (cases "y > dyear")
    case True
    have "toInstant_before dyear y (a + sysT) = toInstant_before dyear (y - 1) (a + (sysT - SECS_IN_YEAR y))"
      using True by (simp add: toInstant_before.simps [of dyear y] algebra_simps)
    also have "\<dots> = a + toInstant_before dyear (y - 1) (sysT - SECS_IN_YEAR y)"
      using "1.IH" [OF True] .
    also have "\<dots> = a + toInstant_before dyear y sysT"
      using True by (simp add: toInstant_before.simps [of dyear y])
    finally show ?thesis .
  next
    case False
    then show ?thesis by (simp add: toInstant_before.simps [of dyear y])
  qed
qed

lemma toInstant_before_step:
  "Y < y \<Longrightarrow> toInstant_before Y y 0 = - SECS_IN_YEAR y + toInstant_before Y (y - 1) 0"
  using toInstant_before_acc [of Y "y - 1" "- SECS_IN_YEAR y" 0]
  by (simp add: toInstant_before.simps [of Y y 0])

lemma toInstant_before_stop: "y \<le> Y \<Longrightarrow> toInstant_before Y y 0 = 0"
  by (simp add: toInstant_before.simps [of Y y 0])

text \<open>The year sums are whole days, bounded by the number of years walked.\<close>

lemma toInstant_after_days:
  "y \<le> Y \<Longrightarrow> \<exists>k. toInstant_after Y y 0 = 86400 * k \<and> 0 \<le> k \<and> k \<le> 366 * (Y - y)"
proof (induction "nat (Y - y)" arbitrary: y)
  case 0
  then have "toInstant_after Y y 0 = 0" by (simp add: toInstant_after_stop)
  then show ?case using 0 by simp
next
  case (Suc n)
  then have lt: "y < Y" and n: "n = nat (Y - (y + 1))" and le: "y + 1 \<le> Y" by linarith+
  from Suc.hyps(1) [OF n le] obtain k where k: "toInstant_after Y (y + 1) 0 = 86400 * k"
    "0 \<le> k" "k \<le> 366 * (Y - (y + 1))" by blast
  have "toInstant_after Y y 0 = 86400 * (DAYS_IN_YEAR y + k)"
    using lt k by (simp add: toInstant_after_step SECS_IN_YEAR_days)
  moreover have "0 \<le> DAYS_IN_YEAR y + k" "DAYS_IN_YEAR y + k \<le> 366 * (Y - y)"
    using k by (simp_all add: DAYS_IN_YEAR_def)
  ultimately show ?case by blast
qed

lemma toInstant_before_days:
  "Y \<le> y \<Longrightarrow> \<exists>k. toInstant_before Y y 0 = - (86400 * k) \<and> 0 \<le> k \<and> k \<le> 366 * (y - Y)"
proof (induction "nat (y - Y)" arbitrary: y)
  case 0
  then have "toInstant_before Y y 0 = 0" by (simp add: toInstant_before_stop)
  then show ?case using 0 by simp
next
  case (Suc n)
  then have lt: "Y < y" and n: "n = nat (y - 1 - Y)" and le: "Y \<le> y - 1" by linarith+
  from Suc.hyps(1) [OF n le] obtain k where k: "toInstant_before Y (y - 1) 0 = - (86400 * k)"
    "0 \<le> k" "k \<le> 366 * (y - 1 - Y)" by blast
  have "toInstant_before Y y 0 = - (86400 * (DAYS_IN_YEAR y + k))"
    using lt k by (simp add: toInstant_before_step SECS_IN_YEAR_days)
  moreover have "0 \<le> DAYS_IN_YEAR y + k" "DAYS_IN_YEAR y + k \<le> 366 * (y - Y)"
    using k by (simp_all add: DAYS_IN_YEAR_def)
  ultimately show ?case by blast
qed

text \<open>The year loops of \<open>toDate\<close> undo those of \<open>toInstant\<close>.\<close>

lemma toDate_after_inverse:
  assumes "y \<le> Y" "0 \<le> r" "r < SECS_IN_YEAR Y"
  shows "toDate_after (toInstant_after Y y 0 + r) y = (r, Y)"
  using assms(1)
proof (induction "nat (Y - y)" arbitrary: y)
  case 0
  then have "y = Y" by simp
  then show ?case
    using assms by (simp add: toInstant_after_stop toDate_after.simps [of r Y])
next
  case (Suc n)
  then have lt: "y < Y" and n: "n = nat (Y - (y + 1))" and le: "y + 1 \<le> Y" by linarith+
  from toInstant_after_days [OF le] have nonneg: "0 \<le> toInstant_after Y (y + 1) 0" by auto
  have "toDate_after (toInstant_after Y y 0 + r) y
      = toDate_after (toInstant_after Y (y + 1) 0 + r) (y + 1)"
    unfolding toInstant_after_step [OF lt]
    by (subst toDate_after.simps) (use nonneg assms(2) in simp)
  then show ?case using Suc.hyps(1) [OF n le] by simp
qed

lemma toDate_before_inverse:
  assumes "Y \<le> y" "0 < c" "c \<le> SECS_IN_YEAR Y"
  shows "toDate_before (toInstant_before Y y 0 - c) y = (- c, Y)"
  using assms(1)
proof (induction "nat (y - Y)" arbitrary: y)
  case 0
  then have "y = Y" by simp
  then show ?case
    using assms by (simp add: toInstant_before_stop toDate_before.simps [of "- c" Y])
next
  case (Suc n)
  then have lt: "Y < y" and n: "n = nat (y - 1 - Y)" and le: "Y \<le> y - 1" by linarith+
  from toInstant_before_days [OF le] have nonpos: "toInstant_before Y (y - 1) 0 \<le> 0" by auto
  have "toDate_before (toInstant_before Y y 0 - c) y
      = toDate_before (toInstant_before Y (y - 1) 0 - c) (y - 1)"
    unfolding toInstant_before_step [OF lt]
    by (subst toDate_before.simps) (use nonpos assms(2) in \<open>simp add: algebra_simps\<close>)
  then show ?case using Suc.hyps(1) [OF n le] by simp
qed


lemma month_index_cases:
  fixes m :: int
  assumes "0 \<le> m" "m < 12"
  shows "m = 0 \<or> m = 1 \<or> m = 2 \<or> m = 3 \<or> m = 4 \<or> m = 5 \<or> m = 6 \<or> m = 7 \<or> m = 8
     \<or> m = 9 \<or> m = 10 \<or> m = 11"
  using assms by arith

lemma MONTH_DAYS_Some:
  assumes "0 \<le> m" "m < 12"
  obtains n where "MONTH_DAYS m y = Some n" "28 \<le> n" "n \<le> 31"
proof -
  have "\<exists>n. MONTH_DAYS m y = Some n \<and> 28 \<le> n \<and> n \<le> 31"
    using month_index_cases [OF assms]
    by (elim disjE) (simp_all add: MONTH_DAYS_def daysPerMonth_at_def daysPerMonth_def)
  then show ?thesis using that by blast
qed

lemma months_inverse:
  assumes "0 \<le> mo" "mo + 1 \<le> dm" "dm \<le> 12"
  shows "\<exists>D. toInstant_months dm Y (mo + 1) acc = Some (acc + 86400 * D) \<and> 0 \<le> D
     \<and> D \<le> 31 * (dm - (mo + 1))
     \<and> (\<forall>n d'. MONTH_DAYS (dm - 1) Y = Some n \<longrightarrow> 0 \<le> d' \<longrightarrow> d' < n
          \<longrightarrow> toDate_months mo (D + d') Y = Some (dm - 1, d'))"
  using assms(1,2)
proof (induction "nat (dm - (mo + 1))" arbitrary: mo acc)
  case 0
  then have eq: "dm = mo + 1" by simp
  have 1: "toInstant_months dm Y (mo + 1) acc = Some (acc + 86400 * 0)"
    by (subst toInstant_months.simps) (simp add: eq)
  have 2: "toDate_months mo (0 + d') Y = Some (dm - 1, d')"
    if "MONTH_DAYS (dm - 1) Y = Some n" "0 \<le> d'" "d' < n" for n d'
    by (subst toDate_months.simps) (use that eq in simp)
  show ?case using 1 2 eq by (intro exI [of _ 0]) simp
next
  case (Suc k)
  then have lt: "mo + 1 < dm" and k: "k = nat (dm - (mo + 1 + 1))" and le: "mo + 1 + 1 \<le> dm"
    and mo1: "0 \<le> mo + 1"
    by linarith+
  have mo11: "mo < 11" using lt assms(3) by linarith
  obtain n where n: "MONTH_DAYS mo Y = Some n" "28 \<le> n" "n \<le> 31"
    using MONTH_DAYS_Some [of mo Y] Suc.prems(1) mo11 by auto
  from Suc.hyps(1) [OF k mo1 le, of "acc + n * 86400"]
  obtain D where D: "toInstant_months dm Y (mo + 1 + 1) (acc + n * 86400)
      = Some (acc + n * 86400 + 86400 * D)" "0 \<le> D" "D \<le> 31 * (dm - (mo + 1 + 1))"
    and inv: "\<And>m d'. MONTH_DAYS (dm - 1) Y = Some m \<Longrightarrow> 0 \<le> d' \<Longrightarrow> d' < m
        \<Longrightarrow> toDate_months (mo + 1) (D + d') Y = Some (dm - 1, d')"
    by blast
  have "toInstant_months dm Y (mo + 1) acc
      = toInstant_months dm Y (mo + 1 + 1) (acc + n * 86400)"
    by (subst toInstant_months.simps)
      (use lt n in \<open>simp add: SECS_IN_MONTH_def SECS_IN_DAY_def\<close>)
  then have 1: "toInstant_months dm Y (mo + 1) acc = Some (acc + 86400 * (n + D))"
    using D(1) by (simp add: algebra_simps)
  have 2: "toDate_months mo (n + D + d') Y = Some (dm - 1, d')"
    if "MONTH_DAYS (dm - 1) Y = Some m" "0 \<le> d'" "d' < m" for m d'
  proof -
    have "toDate_months mo (n + D + d') Y = toDate_months (mo + 1) (D + d') Y"
      by (subst toDate_months.simps) (use mo11 n D(2) that(2) in simp)
    then show ?thesis using inv [OF that] by simp
  qed
  have 3: "0 \<le> n + D" "n + D \<le> 31 * (dm - (mo + 1))"
    using n D(2,3) by (simp_all add: algebra_simps)
  show ?case using 1 2 3 by (intro exI [of _ "n + D"]) blast
qed


lemma sdiv_nonneg: "0 \<le> a \<Longrightarrow> 0 < b \<Longrightarrow> (a::int) sdiv b = a div b"
  by (simp add: sdiv_pos_divisor)

lemma smod_nonneg: "0 \<le> a \<Longrightarrow> 0 < b \<Longrightarrow> (a::int) smod b = a mod b"
  by (simp add: smod_pos_divisor)

lemma months_total:
  assumes "1 \<le> dm" "dm \<le> 12" "MONTH_DAYS (dm - 1) Y = Some n"
    "toInstant_months dm Y 1 0 = Some (86400 * D)"
  shows "D + n \<le> DAYS_IN_YEAR Y"
proof -
  have "dm - 1 = 0 \<or> dm - 1 = 1 \<or> dm - 1 = 2 \<or> dm - 1 = 3 \<or> dm - 1 = 4 \<or> dm - 1 = 5
      \<or> dm - 1 = 6 \<or> dm - 1 = 7 \<or> dm - 1 = 8 \<or> dm - 1 = 9 \<or> dm - 1 = 10 \<or> dm - 1 = 11"
    using assms(1,2) by (intro month_index_cases) simp_all
  then have "dm = 1 \<or> dm = 2 \<or> dm = 3 \<or> dm = 4 \<or> dm = 5 \<or> dm = 6 \<or> dm = 7 \<or> dm = 8
      \<or> dm = 9 \<or> dm = 10 \<or> dm = 11 \<or> dm = 12"
    by auto
  then show ?thesis
    using assms(3,4)
    by (elim disjE)
      (simp_all add: toInstant_months.simps SECS_IN_MONTH_def SECS_IN_DAY_def MONTH_DAYS_def
        daysPerMonth_at_def daysPerMonth_def DAYS_IN_YEAR_def split: if_splits)
qed

lemma div_mod_decomp:
  fixes q r b :: int
  assumes "0 \<le> r" "r < b"
  shows "(q * b + r) div b = q" "(q * b + r) mod b = r"
  using assms by simp_all

lemma tod_parts:
  fixes h m c :: int
  assumes "0 \<le> h" "h \<le> 23" "0 \<le> m" "m \<le> 59" "0 \<le> c" "c \<le> 59"
  shows "(h * 3600 + m * 60 + c) div 3600 = h"
    "((h * 3600 + m * 60 + c) div 60) mod 60 = m"
    "(h * 3600 + m * 60 + c) mod 60 = c"
proof -
  have r: "0 \<le> m * 60 + c" "m * 60 + c < 3600" using assms by simp_all
  have "(h * 3600 + (m * 60 + c)) div 3600 = h" using r by (rule div_mod_decomp)
  then show "(h * 3600 + m * 60 + c) div 3600 = h" by (simp add: add.assoc)
  have e: "h * 3600 + m * 60 + c = (h * 60 + m) * 60 + c" by simp
  have c: "0 \<le> c" "c < 60" using assms by simp_all
  have d: "(h * 3600 + m * 60 + c) div 60 = h * 60 + m"
    unfolding e using c by (rule div_mod_decomp)
  have m: "0 \<le> m" "m < 60" using assms by simp_all
  show "((h * 3600 + m * 60 + c) div 60) mod 60 = m"
    unfolding d using m by (rule div_mod_decomp)
  show "(h * 3600 + m * 60 + c) mod 60 = c"
    unfolding e using c by (rule div_mod_decomp)
qed

lemma toTime_of_day:
  assumes "0 \<le> h" "h \<le> 23" "0 \<le> m" "m \<le> 59" "0 \<le> c" "c \<le> 59"
  shows "toTime (86400 * K + (h * 3600 + m * 60 + c))
     = \<lparr>hour = h, min' = m, sec = c, fraction' = 0\<rparr>"
proof -
  define tod where "tod = h * 3600 + m * 60 + c"
  have tod: "0 \<le> tod" "tod < 86400" using assms by (simp_all add: tod_def)
  have md: "(86400 * K + tod) mod 86400 = tod" using tod by simp
  have "(86400 * K + tod) smod 86400
      = (if 0 \<le> 86400 * K + tod \<or> (86400 * K + tod) mod 86400 = 0
         then (86400 * K + tod) mod 86400 else (86400 * K + tod) mod 86400 - 86400)"
    by (rule smod_pos_divisor) simp
  then have "(86400 * K + tod) smod 86400
      = (if 0 \<le> 86400 * K + tod \<or> tod = 0 then tod else tod - 86400)"
    unfolding md .
  then have sm: "(86400 * K + tod) smod 86400 = tod \<or> (86400 * K + tod) smod 86400 = tod - 86400"
    by (simp split: if_splits)
  have sec: "(if (86400 * K + tod) smod 86400 < 0 then 86400 + (86400 * K + tod) smod 86400
       else (86400 * K + tod) smod 86400) = tod"
    using sm tod by (elim disjE) simp_all
  have h: "tod div 3600 = h" and m: "(tod div 60) mod 60 = m" and c: "tod mod 60 = c"
    unfolding tod_def using assms by (rule tod_parts)+
  have nn: "0 \<le> tod div 3600" "0 \<le> tod div 60" using tod by simp_all
  have "toTime (86400 * K + tod) = \<lparr>hour = (tod sdiv 3600) smod 24,
      min' = (tod sdiv 60) smod 60, sec = tod smod 60, fraction' = 0\<rparr>"
    unfolding toTime_def SECS_IN_DAY_def Let_def sec ..
  also have "\<dots> = \<lparr>hour = h, min' = m, sec = c, fraction' = 0\<rparr>"
    using tod nn assms by (simp add: sdiv_nonneg smod_nonneg h m c)
  finally show ?thesis by (simp add: tod_def)
qed



lemma toInstant_value:
  assumes "toInstant_months (month d) (year d) 1 0 = Some ms"
  shows "toInstant d t = Some \<lparr>sysTime = word_of_int
      ((if year d < 1900 then toInstant_before (year d) 1899 0
        else toInstant_after (year d) 1900 0)
       + (if year d < 1900
          then - (SECS_IN_YEAR (year d)
                  - (ms + (day d - 1) * SECS_IN_DAY + hour t * 3600 + min' t * 60 + sec t))
          else ms + (day d - 1) * SECS_IN_DAY + hour t * 3600 + min' t * 60 + sec t)),
      fraction = 0\<rparr>"
  unfolding toInstant_def Let_def assms option.case ..

lemma toDate_value:
  assumes "(if s < 0 then toDate_before s 1899 else toDate_after s 1900) = (sysT, y)"
    and "(if s < 0 then SECS_IN_YEAR y + sysT else sysT) = 86400 * days + tod"
    and "0 \<le> days" "0 \<le> tod" "tod < 86400"
    and "toDate_months 0 days y = Some (mo, days')"
  shows "toDate s = Some \<lparr>month = mo + 1, day = days' + 1, year = y\<rparr>"
proof -
  have "(86400 * days + tod) sdiv 86400 = (86400 * days + tod) div 86400"
    using assms(3,4) by (intro sdiv_nonneg) simp_all
  also have "\<dots> = days" using assms(4,5) by simp
  finally have d: "(86400 * days + tod) sdiv 86400 = days" .
  show ?thesis
    unfolding toDate_def Let_def assms(1) prod.case assms(2) SECS_IN_DAY_def d assms(6)
    by simp
qed

text \<open>
  Claim C1.  For every valid date and time, whether the year is before or after the
  prime epoch 1900, converting them to seconds with \<open>toInstant\<close> and the seconds back
  with \<open>toDate\<close> and \<open>toTime\<close> reproduces the date and the hour, minute and second
  exactly.  \<open>toInstant\<close> does not read the sub-second fraction of the \<open>Time\<close>, and
  \<open>toTime\<close> returns fraction 0.
\<close>

theorem calendar_round_trip:
  assumes "valid_date d" "valid_time t"
  shows "\<exists>i. toInstant d t = Some i \<and> toDate (secs i) = Some d
     \<and> toTime (secs i) = t\<lparr>fraction' := 0\<rparr>"
proof -
  define Y where "Y = year d"
  from assms(1) obtain n where mb: "1 \<le> month d" "month d \<le> 12"
    and n: "MONTH_DAYS (month d - 1) Y = Some n" and db: "1 \<le> day d" "day d \<le> n"
    and yb: "- 2147483648 \<le> Y" "Y \<le> 2147483647"
    by (auto simp: valid_date_def Y_def split: option.splits)
  from assms(2) have tb: "0 \<le> hour t" "hour t \<le> 23" "0 \<le> min' t" "min' t \<le> 59"
    "0 \<le> sec t" "sec t \<le> 59"
    by (simp_all add: valid_time_def)
  from months_inverse [of 0 "month d" Y 0] mb
  obtain D where D: "toInstant_months (month d) Y 1 0 = Some (86400 * D)" "0 \<le> D"
    "D \<le> 31 * (month d - 1)"
    and inv: "\<And>m d'. MONTH_DAYS (month d - 1) Y = Some m \<Longrightarrow> 0 \<le> d' \<Longrightarrow> d' < m
        \<Longrightarrow> toDate_months 0 (D + d') Y = Some (month d - 1, d')"
    by auto
  have DT: "D + n \<le> DAYS_IN_YEAR Y" using mb n D(1) by (rule months_total)
  define tod where "tod = hour t * 3600 + min' t * 60 + sec t"
  have tod: "0 \<le> tod" "tod < 86400" using tb by (simp_all add: tod_def)
  define days where "days = D + (day d - 1)"
  have days: "0 \<le> days" "days + 1 \<le> DAYS_IN_YEAR Y" using D(2) db DT by (simp_all add: days_def)
  define siy where "siy = 86400 * days + tod"
  have siy: "0 \<le> siy" "siy < SECS_IN_YEAR Y"
    using days tod by (simp_all add: siy_def SECS_IN_YEAR_days)
  have siy_eq: "86400 * D + (day d - 1) * 86400 + hour t * 3600 + min' t * 60 + sec t = siy"
    by (simp add: siy_def days_def tod_def algebra_simps)
  define s where "s = (if Y < 1900 then toInstant_before Y 1899 0 - (SECS_IN_YEAR Y - siy)
    else toInstant_after Y 1900 0 + siy)"
  define i where "i = \<lparr>sysTime = (word_of_int s :: int64_t), fraction = 0\<rparr>"
  have "(if year d < 1900 then toInstant_before (year d) 1899 0
        else toInstant_after (year d) 1900 0)
       + (if year d < 1900
          then - (SECS_IN_YEAR (year d)
                  - (86400 * D + (day d - 1) * SECS_IN_DAY + hour t * 3600 + min' t * 60 + sec t))
          else 86400 * D + (day d - 1) * SECS_IN_DAY + hour t * 3600 + min' t * 60 + sec t) = s"
    using siy_eq by (simp add: s_def SECS_IN_DAY_def flip: Y_def)
  then have inst: "toInstant d t = Some i"
    using toInstant_value [OF D(1) [unfolded Y_def], of t] unfolding i_def by simp
  have dm: "toDate_months 0 days Y = Some (month d - 1, day d - 1)"
    unfolding days_def using inv [OF n, of "day d - 1"] db by simp
  have main: "- 9223372036854775808 \<le> s \<and> s < 9223372036854775808
      \<and> toDate s = Some d \<and> (\<exists>K. s = 86400 * K + tod)"
  proof (cases "Y < 1900")
    case True
    then have le: "Y \<le> 1899" by simp
    from toInstant_before_days [OF le] obtain k where k: "toInstant_before Y 1899 0 = - (86400 * k)"
      "0 \<le> k" "k \<le> 366 * (1899 - Y)" by blast
    define c where "c = SECS_IN_YEAR Y - siy"
    have c: "0 < c" "c \<le> SECS_IN_YEAR Y" using siy by (simp_all add: c_def)
    have s: "s = toInstant_before Y 1899 0 - c" using True by (simp add: s_def c_def)
    have neg: "s < 0" using k c by (simp add: s)
    have 1: "(if s < 0 then toDate_before s 1899 else toDate_after s 1900) = (- c, Y)"
      using neg toDate_before_inverse [OF le c] by (simp add: s)
    have 2: "(if s < 0 then SECS_IN_YEAR Y + - c else - c) = 86400 * days + tod"
      using neg by (simp add: c_def siy_def)
    have "toDate s = Some \<lparr>month = month d - 1 + 1, day = day d - 1 + 1, year = Y\<rparr>"
      using 1 2 days(1) tod dm by (rule toDate_value)
    then have td: "toDate s = Some d" by (simp add: Y_def)
    have "s = 86400 * (- k - DAYS_IN_YEAR Y + days) + tod"
      by (simp add: s k c_def siy_def SECS_IN_YEAR_days algebra_simps)
    then have K: "\<exists>K. s = 86400 * K + tod" ..
    have "- (86400 * (366 * (1899 - Y))) - 31622400 \<le> s"
      using k(3) c(2) SECS_IN_YEAR_bounds(2) [of Y] by (simp add: s k(1))
    then have "- 9223372036854775808 \<le> s" using yb by simp
    then show ?thesis using neg td K by simp
  next
    case False
    then have le: "1900 \<le> Y" by simp
    from toInstant_after_days [OF le] obtain k where k: "toInstant_after Y 1900 0 = 86400 * k"
      "0 \<le> k" "k \<le> 366 * (Y - 1900)" by blast
    have s: "s = toInstant_after Y 1900 0 + siy" using False by (simp add: s_def)
    have nonneg: "\<not> s < 0" using k siy by (simp add: s)
    have 1: "(if s < 0 then toDate_before s 1899 else toDate_after s 1900) = (siy, Y)"
      using nonneg toDate_after_inverse [OF le siy] by (simp add: s)
    have 2: "(if s < 0 then SECS_IN_YEAR Y + siy else siy) = 86400 * days + tod"
      using nonneg by (simp add: siy_def)
    have "toDate s = Some \<lparr>month = month d - 1 + 1, day = day d - 1 + 1, year = Y\<rparr>"
      using 1 2 days(1) tod dm by (rule toDate_value)
    then have td: "toDate s = Some d" by (simp add: Y_def)
    have "s = 86400 * (k + days) + tod"
      by (simp add: s k siy_def algebra_simps)
    then have K: "\<exists>K. s = 86400 * K + tod" ..
    have "s \<le> 86400 * (366 * (Y - 1900)) + 31622400"
      using k(3) siy(2) SECS_IN_YEAR_bounds(2) [of Y] by (simp add: s k(1))
    then have "s < 9223372036854775808" using yb by simp
    then show ?thesis using nonneg td K by simp
  qed
  then obtain K where K: "s = 86400 * K + tod" by blast
  have "secs i = s"
    unfolding i_def secs_def using main by (simp add: sint_int64_id)
  moreover have "toTime s = t\<lparr>fraction' := 0\<rparr>"
    unfolding K tod_def using tb by (simp add: toTime_of_day)
  ultimately show ?thesis using inst main by simp
qed

text \<open>
  The last second before the prime epoch, a leap day of 1896, and the first second of 2024.
\<close>

theorem calendar_round_trip_witness:
  "valid_date \<lparr>month = 12, day = 31, year = 1899\<rparr>
   \<and> valid_time \<lparr>hour = 23, min' = 59, sec = 59, fraction' = 0\<rparr>
   \<and> (\<exists>i. toInstant \<lparr>month = 12, day = 31, year = 1899\<rparr>
              \<lparr>hour = 23, min' = 59, sec = 59, fraction' = 0\<rparr> = Some i
          \<and> toDate (secs i) = Some \<lparr>month = 12, day = 31, year = 1899\<rparr>
          \<and> toTime (secs i) = \<lparr>hour = 23, min' = 59, sec = 59, fraction' = 0\<rparr>)
   \<and> valid_date \<lparr>month = 2, day = 29, year = 1896\<rparr>
   \<and> (\<exists>i. toInstant \<lparr>month = 2, day = 29, year = 1896\<rparr>
              \<lparr>hour = 23, min' = 59, sec = 59, fraction' = 0\<rparr> = Some i
          \<and> toDate (secs i) = Some \<lparr>month = 2, day = 29, year = 1896\<rparr>
          \<and> toTime (secs i) = \<lparr>hour = 23, min' = 59, sec = 59, fraction' = 0\<rparr>)
   \<and> valid_date \<lparr>month = 1, day = 1, year = 2024\<rparr>
   \<and> valid_time \<lparr>hour = 0, min' = 0, sec = 0, fraction' = 0\<rparr>
   \<and> (\<exists>i. toInstant \<lparr>month = 1, day = 1, year = 2024\<rparr>
              \<lparr>hour = 0, min' = 0, sec = 0, fraction' = 0\<rparr> = Some i
          \<and> toDate (secs i) = Some \<lparr>month = 1, day = 1, year = 2024\<rparr>
          \<and> toTime (secs i) = \<lparr>hour = 0, min' = 0, sec = 0, fraction' = 0\<rparr>)"
proof -
  have d1: "valid_date \<lparr>month = 12, day = 31, year = 1899\<rparr>"
    and d2: "valid_date \<lparr>month = 2, day = 29, year = 1896\<rparr>"
    and d3: "valid_date \<lparr>month = 1, day = 1, year = 2024\<rparr>"
    by (simp_all add: valid_date_def MONTH_DAYS_def daysPerMonth_at_def daysPerMonth_def
        IS_LEAP_YEAR_def signed_modulo_int_def)
  have t1: "valid_time \<lparr>hour = 23, min' = 59, sec = 59, fraction' = 0\<rparr>"
    and t3: "valid_time \<lparr>hour = 0, min' = 0, sec = 0, fraction' = 0\<rparr>"
    by (simp_all add: valid_time_def)
  show ?thesis
    using d1 d2 d3 t1 t3 calendar_round_trip [OF d1 t1] calendar_round_trip [OF d2 t1]
      calendar_round_trip [OF d3 t3]
    by simp
qed

text \<open>
  The table of \<open>NTPTime.h\<close>: the last second of era -1, the first second of 2024, and
  the first seconds of era 1 and of era -1.
\<close>

lemma documented_dates:
  "toDate (- 1) = Some \<lparr>month = 12, day = 31, year = 1899\<rparr>"
  "toTime (- 1) = \<lparr>hour = 23, min' = 59, sec = 59, fraction' = 0\<rparr>"
  "toDate 3913056000 = Some \<lparr>month = 1, day = 1, year = 2024\<rparr>"
  "toTime 3913056000 = \<lparr>hour = 0, min' = 0, sec = 0, fraction' = 0\<rparr>"
  "toDate 4294967296 = Some \<lparr>month = 2, day = 7, year = 2036\<rparr>"
  "toTime 4294967296 = \<lparr>hour = 6, min' = 28, sec = 16, fraction' = 0\<rparr>"
  "toDate (- 4294967296) = Some \<lparr>month = 11, day = 24, year = 1763\<rparr>"
  "toTime (- 4294967296) = \<lparr>hour = 17, min' = 31, sec = 44, fraction' = 0\<rparr>"
  by code_simp+

section \<open>The rounding to double precision\<close>

text \<open>
  A double is a fixed point of the rounding, the fractional part of a double is a
  double, and so is every integer below \<open>2^53\<close> in magnitude.
\<close>

lemma powi_less_imp_less:
  fixes a b :: int
  assumes "(2::real) powi a < 2 powi b"
  shows "a < b"
proof (rule ccontr)
  assume "\<not> a < b"
  then have "b \<le> a" by simp
  then have "(2::real) powi b \<le> 2 powi a" by (intro power_int_increasing) simp_all
  with assms show False by simp
qed

lemma ilog2_le:
  assumes "x \<noteq> 0"
  shows "2 powi (ilog2 x) \<le> \<bar>x\<bar>"
proof (cases "1 \<le> \<bar>x\<bar>")
  case True
  define n where "n = \<lfloor>\<bar>x\<bar>\<rfloor>"
  have n: "0 < n" using True by (simp add: n_def)
  have b: "1 \<le> bitlen n" using n by (simp add: bitlen_alt_def)
  have "2 powi (ilog2 x) = (2::real) ^ nat (bitlen n - 1)"
    using True b by (simp add: ilog2_def n_def power_int_nonneg_exp)
  also have "\<dots> = of_int (2 ^ nat (bitlen n - 1))" by simp
  also have "\<dots> \<le> of_int n"
    using bitlen_bounds [OF n] by (intro of_int_le_iff [THEN iffD2]) simp
  also have "\<dots> \<le> \<bar>x\<bar>" by (simp add: n_def)
  finally show ?thesis .
next
  case False
  then have lt: "\<bar>x\<bar> < 1" by simp
  have pos: "0 < \<bar>x\<bar>" using assms by simp
  define y where "y = 1 / \<bar>x\<bar>"
  have y: "1 < y" using lt pos by (simp add: y_def)
  define c where "c = \<lceil>y\<rceil>"
  have c: "0 < c - 1" using y by (simp add: c_def)
  define k where "k = bitlen (c - 1)"
  have "c - 1 < 2 ^ nat k" using bitlen_bounds [OF c] by (simp add: k_def)
  then have "c \<le> 2 ^ nat k" by simp
  then have "y \<le> of_int (2 ^ nat k)" unfolding c_def by (simp only: ceiling_le_iff)
  then have "y \<le> 2 ^ nat k" by simp
  then have "1 / 2 ^ nat k \<le> \<bar>x\<bar>"
    using pos by (simp add: y_def field_simps)
  moreover have "2 powi (ilog2 x) = 1 / (2::real) ^ nat k"
    using False bitlen_nonneg [of "c - 1"]
    by (simp add: ilog2_def k_def c_def y_def power_int_def inverse_eq_divide power_one_over)
  ultimately show ?thesis by simp
qed

lemma rne_of_int: "rne (of_int k) = k"
  by (simp add: rne_def)

lemma is_doubleI:
  assumes "x = of_int m * 2 powi e" "\<bar>m\<bar> < 2 ^ 53" "- 1074 \<le> e"
  shows "is_double x"
  unfolding is_double_def using assms by blast

lemma is_double_of_int: "\<bar>k\<bar> < 2 ^ 53 \<Longrightarrow> is_double (of_int k)"
  by (rule is_doubleI [of _ k 0]) simp_all

lemma rnd64_exact:
  assumes "is_double x"
  shows "rnd64 x = x"
proof (cases "x = 0")
  case True
  then show ?thesis by (simp add: rnd64_def)
next
  case False
  from assms obtain m e0 where x: "x = of_int m * 2 powi e0" and m: "\<bar>m\<bar> < 2 ^ 53"
    and e0: "- 1074 \<le> e0"
    unfolding is_double_def by blast
  define e where "e = max (ilog2 x - 52) (- 1074)"
  have "\<bar>x\<bar> = of_int \<bar>m\<bar> * 2 powi e0" by (simp add: x abs_mult)
  also have "\<dots> < 2 ^ 53 * 2 powi e0"
  proof -
    have "(of_int \<bar>m\<bar> :: real) < of_int (2 ^ 53)" using m by (intro of_int_less_iff [THEN iffD2])
    then show ?thesis by (intro mult_strict_right_mono) simp_all
  qed
  also have "\<dots> = 2 powi (53 + e0)" by (simp add: power_int_add)
  finally have "2 powi (ilog2 x) < (2::real) powi (53 + e0)"
    using ilog2_le [OF False] by simp
  then have "ilog2 x < 53 + e0" by (rule powi_less_imp_less)
  then have le: "e \<le> e0" using e0 by (simp add: e_def)
  define j where "j = nat (e0 - e)"
  have "(2::real) powi e0 = 2 powi (e + int j)" using le by (simp add: j_def)
  also have "\<dots> = 2 powi e * 2 ^ j" by (simp add: power_int_add)
  finally have split: "(2::real) powi e0 = 2 powi e * 2 ^ j" .
  have "x / 2 powi e = of_int (m * 2 ^ j)"
    by (simp add: x split)
  then have "rne (x / 2 powi e) = m * 2 ^ j" by (simp only: rne_of_int)
  then have "of_int (rne (x / 2 powi e)) * 2 powi e = x"
    by (simp add: x split)
  then show ?thesis using False by (simp add: rnd64_def Let_def e_def)
qed

lemma to_double_exact: "\<bar>k\<bar> < 2 ^ 53 \<Longrightarrow> to_double k = of_int k"
  by (simp add: to_double_def rnd64_exact is_double_of_int)

lemma trunc_of_int: "trunc (of_int k) = k"
  by (simp add: trunc_def)

lemma abs_frac_le: "\<bar>x - of_int (trunc x)\<bar> \<le> \<bar>x\<bar>"
proof (cases "0 \<le> x")
  case True
  then have "0 \<le> \<lfloor>x\<rfloor>" by simp
  then have "(0::real) \<le> of_int \<lfloor>x\<rfloor>" by simp
  moreover have "of_int \<lfloor>x\<rfloor> \<le> x" by simp
  ultimately show ?thesis using True by (simp add: trunc_def)
next
  case False
  then have "\<lceil>x\<rceil> \<le> 0" by (simp add: ceiling_le_zero)
  then have "of_int \<lceil>x\<rceil> \<le> (0::real)" by simp
  moreover have "x \<le> of_int \<lceil>x\<rceil>" by simp
  ultimately show ?thesis using False by (simp add: trunc_def)
qed

lemma is_double_frac:
  assumes "is_double x"
  shows "is_double (x - of_int (trunc x))"
proof -
  from assms obtain m e where x: "x = of_int m * 2 powi e" and m: "\<bar>m\<bar> < 2 ^ 53"
    and e: "- 1074 \<le> e"
    unfolding is_double_def by blast
  show ?thesis
  proof (cases "0 \<le> e")
    case True
    then have "x = of_int (m * 2 ^ nat e)" by (simp add: x power_int_nonneg_exp)
    then have "x - of_int (trunc x) = of_int 0" by (simp only: trunc_of_int)
    then show ?thesis using is_double_of_int [of 0] by simp
  next
    case False
    define N where "N = nat (- e)"
    have pw: "(2::real) powi e = 1 / 2 ^ N" using False by (simp add: N_def power_int_def power_one_over inverse_eq_divide)
    define m' where "m' = m - trunc x * 2 ^ N"
    have f: "x - of_int (trunc x) = of_int m' * 2 powi e"
      by (simp add: m'_def x pw field_simps)
    have "\<bar>of_int m' :: real\<bar> = \<bar>x - of_int (trunc x)\<bar> * 2 ^ N"
      by (simp add: f pw abs_mult)
    also have "\<dots> \<le> \<bar>x\<bar> * 2 ^ N" by (intro mult_right_mono abs_frac_le) simp
    also have "\<dots> = \<bar>of_int m :: real\<bar>" by (simp add: x pw abs_mult)
    finally have "\<bar>m'\<bar> \<le> \<bar>m\<bar>" by (simp flip: of_int_abs)
    then have "\<bar>m'\<bar> < 2 ^ 53" using m by simp
    with f e show ?thesis by (intro is_doubleI)
  qed
qed


lemma rnd64_of_int: "\<bar>k\<bar> < 2 ^ 53 \<Longrightarrow> rnd64 (of_int k) = of_int k"
  by (simp add: rnd64_exact is_double_of_int)

lemma tzOffset_result:
  fixes h q :: int
  assumes "\<bar>h\<bar> \<le> 14" "\<bar>q\<bar> \<le> 3"
  shows "double_to_int (- (2 ^ 31)) (2 ^ 31 - 1)
      (dadd (dmul 3600 (to_double h)) (dmul 3600 (of_int q / 4))) = Some (3600 * h + 900 * q)"
proof -
  have 1: "to_double h = of_int h" using assms(1) by (intro to_double_exact) simp
  have "dmul 3600 (of_int h) = rnd64 (of_int (3600 * h))" by (simp add: dmul_def)
  also have "\<dots> = of_int (3600 * h)" using assms(1) by (intro rnd64_of_int) simp
  finally have 2: "dmul 3600 (of_int h) = of_int (3600 * h)" .
  have "dmul 3600 (of_int q / 4) = rnd64 (of_int (900 * q))" by (simp add: dmul_def)
  also have "\<dots> = of_int (900 * q)" using assms(2) by (intro rnd64_of_int) simp
  finally have 3: "dmul 3600 (of_int q / 4) = of_int (900 * q)" .
  have "dadd (of_int (3600 * h)) (of_int (900 * q)) = rnd64 (of_int (3600 * h + 900 * q))"
    by (simp add: dadd_def)
  also have "\<dots> = of_int (3600 * h + 900 * q)"
    using assms by (intro rnd64_of_int) simp
  finally have 4: "dadd (of_int (3600 * h)) (of_int (900 * q)) = of_int (3600 * h + 900 * q)" .
  have b: "- 14 \<le> h" "h \<le> 14" "- 3 \<le> q" "q \<le> 3" using assms by simp_all
  show ?thesis
    unfolding 1 2 3 4 double_to_int_def trunc_of_int Let_def using b by simp
qed

lemma trunc_bounds:
  assumes "- 14 \<le> x" "x \<le> 14"
  shows "\<bar>trunc x\<bar> \<le> 14"
proof (cases "0 \<le> x")
  case True
  then have "0 \<le> \<lfloor>x\<rfloor>" "\<lfloor>x\<rfloor> \<le> 14" using assms(2) by (simp_all add: floor_le_iff)
  then show ?thesis using True by (simp add: trunc_def)
next
  case False
  then have up: "\<lceil>x\<rceil> \<le> 0" by (simp add: ceiling_le_zero)
  have "x \<le> of_int \<lceil>x\<rceil>" by (rule le_of_int_ceiling)
  then have "real_of_int (- 14) \<le> of_int \<lceil>x\<rceil>"
    using assms(1) by linarith
  then have lo: "- 14 \<le> \<lceil>x\<rceil>" by (simp only: of_int_le_iff)
  have "trunc x = \<lceil>x\<rceil>" using False by (simp add: trunc_def)
  then show ?thesis using up lo by linarith
qed

lemma tzOffset_in_range:
  assumes "is_double hours" "- 14 \<le> hours" "hours \<le> 14"
  shows "tzOffset hours = Some (3600 * trunc hours
     + (let f = hours - of_int (trunc hours)
        in if f < 0 then (if f \<le> - 0.75 then - 2700 else if f \<le> - 0.5 then - 1800 else - 900)
           else if f > 0 then (if f \<ge> 0.75 then 2700 else if f \<ge> 0.5 then 1800 else 900)
           else 0))"
proof -
  define h where "h = trunc hours"
  define f where "f = hours - of_int h"
  define q :: int where "q = (if f < 0 then (if f \<le> - 0.75 then - 3 else if f \<le> - 0.5 then - 2 else - 1)
     else if f > 0 then (if f \<ge> 0.75 then 3 else if f \<ge> 0.5 then 2 else 1) else 0)"
  have hb: "\<bar>h\<bar> \<le> 14" unfolding h_def using assms(2,3) by (rule trunc_bounds)
  have qb: "\<bar>q\<bar> \<le> 3" by (simp add: q_def)
  have "trunc (- 14) = - 14" using trunc_of_int [of "- 14"] by simp
  then have hsel: "(if hours \<le> - 14 then - 14 else if hours > 14 then 14 else trunc hours) = h"
    using assms(2,3) by (auto simp: h_def)
  have td: "to_double h = of_int h" using hb by (intro to_double_exact) simp
  have "rnd64 (hours - of_int (trunc hours)) = hours - of_int (trunc hours)"
    using assms(1) by (intro rnd64_exact is_double_frac)
  then have fr: "dsub hours (to_double h) = f"
    unfolding td dsub_def f_def by (simp only: h_def)
  have snap: "(if f < 0 then (if f \<le> - 0.75 then - 0.75 else if f \<le> - 0.5 then - 0.5 else - 0.25)
      else if f > 0 then (if f \<ge> 0.75 then 0.75 else if f \<ge> 0.5 then 0.5 else 0.25)
      else f) = of_int q / 4"
    by (simp add: q_def)
  have "tzOffset hours = double_to_int (- (2 ^ 31)) (2 ^ 31 - 1)
      (dadd (dmul 3600 (to_double h)) (dmul 3600 (of_int q / 4)))"
    unfolding tzOffset_def hsel Let_def fr snap ..
  also have "\<dots> = Some (3600 * h + 900 * q)" using hb qb by (rule tzOffset_result)
  finally show ?thesis
    by (simp add: h_def f_def q_def Let_def)
qed

text \<open>
  The rounding keeps 53 significant bits: the exponent it picks is that of the leading
  bit, its result is a double, and it moves its argument by at most half a unit in the
  last place.
\<close>

lemma ilog2_gt:
  assumes "x \<noteq> 0"
  shows "\<bar>x\<bar> < 2 powi (ilog2 x + 1)"
proof (cases "1 \<le> \<bar>x\<bar>")
  case True
  define n where "n = \<lfloor>\<bar>x\<bar>\<rfloor>"
  have n: "0 < n" using True by (simp add: n_def)
  have b: "1 \<le> bitlen n" using n by (simp add: bitlen_alt_def)
  have "n < 2 ^ nat (bitlen n)" using bitlen_bounds [OF n] by simp
  then have "n + 1 \<le> 2 ^ nat (bitlen n)" by simp
  then have "(of_int (n + 1) :: real) \<le> of_int (2 ^ nat (bitlen n))"
    by (intro of_int_le_iff [THEN iffD2])
  moreover have "\<bar>x\<bar> < of_int (n + 1)" unfolding n_def by linarith
  ultimately have "\<bar>x\<bar> < 2 ^ nat (bitlen n)" by simp
  moreover have "2 powi (ilog2 x + 1) = (2::real) ^ nat (bitlen n)"
    using True b by (simp add: ilog2_def n_def power_int_nonneg_exp)
  ultimately show ?thesis by simp
next
  case False
  then have lt: "\<bar>x\<bar> < 1" by simp
  have pos: "0 < \<bar>x\<bar>" using assms by simp
  define y where "y = 1 / \<bar>x\<bar>"
  have y: "1 < y" using lt pos by (simp add: y_def)
  define c where "c = \<lceil>y\<rceil>"
  have c: "0 < c - 1" using y by (simp add: c_def)
  define k where "k = bitlen (c - 1)"
  have k: "1 \<le> k" using c by (simp add: k_def bitlen_alt_def)
  have "2 ^ nat (k - 1) \<le> c - 1" using bitlen_bounds [OF c] by (simp add: k_def)
  then have "(of_int (2 ^ nat (k - 1)) :: real) \<le> of_int (c - 1)"
    by (intro of_int_le_iff [THEN iffD2])
  moreover have "of_int (c - 1) < y" unfolding c_def by linarith
  ultimately have "2 ^ nat (k - 1) < y" by simp
  then have "\<bar>x\<bar> < 1 / 2 ^ nat (k - 1)"
    using pos by (simp add: y_def field_simps)
  moreover have "2 powi (ilog2 x + 1) = 1 / (2::real) ^ nat (k - 1)"
  proof -
    have "ilog2 x + 1 = - (k - 1)" using False by (simp add: ilog2_def k_def c_def y_def)
    then have "(2::real) powi (ilog2 x + 1) = 2 powi (- (k - 1))" by simp
    also have "\<dots> = 1 / 2 powi (k - 1)" by (rule power_int_minus_divide)
    also have "\<dots> = 1 / 2 ^ nat (k - 1)" using k by (simp add: power_int_nonneg_exp)
    finally show ?thesis .
  qed
  ultimately show ?thesis by simp
qed

lemma rne_cases: "rne z = \<lfloor>z\<rfloor> \<or> rne z = \<lfloor>z\<rfloor> + 1 \<and> z \<noteq> of_int \<lfloor>z\<rfloor>"
  by (auto simp: rne_def Let_def)

lemma rne_le:
  assumes "z \<le> of_int N"
  shows "rne z \<le> N"
proof -
  have fl: "\<lfloor>z\<rfloor> \<le> N" using assms by (simp add: floor_le_iff)
  from rne_cases [of z] show ?thesis
  proof
    assume "rne z = \<lfloor>z\<rfloor>"
    then show ?thesis using fl by simp
  next
    assume a: "rne z = \<lfloor>z\<rfloor> + 1 \<and> z \<noteq> of_int \<lfloor>z\<rfloor>"
    then have "of_int \<lfloor>z\<rfloor> < z" using of_int_floor_le [of z] by linarith
    then have "of_int \<lfloor>z\<rfloor> < (of_int N :: real)" using assms by linarith
    then have "\<lfloor>z\<rfloor> < N" by (simp only: of_int_less_iff)
    then show ?thesis using a by simp
  qed
qed

lemma rne_ge:
  assumes "of_int N \<le> z"
  shows "N \<le> rne z"
proof -
  have "N \<le> \<lfloor>z\<rfloor>" using assms by (simp add: le_floor_iff)
  then show ?thesis using rne_cases [of z] by auto
qed

lemma is_double_rnd64: "is_double (rnd64 x)"
proof (cases "x = 0")
  case True
  then show ?thesis using is_double_of_int [of 0] by (simp add: rnd64_def)
next
  case False
  define e where "e = max (ilog2 x - 52) (- 1074)"
  define m where "m = rne (x / 2 powi e)"
  have r: "rnd64 x = of_int m * 2 powi e" using False by (simp add: rnd64_def Let_def e_def m_def)
  have "2 powi (ilog2 x + 1) \<le> (2::real) powi (e + 53)"
    by (intro power_int_increasing) (simp_all add: e_def)
  then have "\<bar>x\<bar> < 2 powi (e + 53)" using ilog2_gt [OF False] by linarith
  also have "\<dots> = 2 ^ 53 * 2 powi e" by (simp add: power_int_add)
  finally have "\<bar>x\<bar> / 2 powi e < 2 ^ 53" by (simp add: field_simps)
  then have "\<bar>x / 2 powi e\<bar> < 9007199254740992" by simp
  then have "x / 2 powi e \<le> 9007199254740992" "- 9007199254740992 \<le> x / 2 powi e"
    by linarith+
  then have up: "x / 2 powi e \<le> of_int (2 ^ 53)" and lo: "of_int (- (2 ^ 53)) \<le> x / 2 powi e"
    by simp_all
  have mb: "m \<le> 2 ^ 53" "- (2 ^ 53) \<le> m"
    unfolding m_def by (rule rne_le [OF up], rule rne_ge [OF lo])
  have e: "- 1074 \<le> e" by (simp add: e_def)
  consider "\<bar>m\<bar> < 2 ^ 53" | "m = 2 ^ 53" | "m = - (2 ^ 53)" using mb by linarith
  then show ?thesis
  proof cases
    case 1
    then show ?thesis unfolding r using e by (intro is_doubleI [of _ m e]) simp_all
  next
    case 2
    have "of_int m * 2 powi e = of_int (2 ^ 52) * (2::real) powi (e + 1)"
      by (simp add: 2 power_int_add)
    then show ?thesis unfolding r using e by (intro is_doubleI [of _ "2 ^ 52" "e + 1"]) simp_all
  next
    case 3
    have "of_int m * 2 powi e = of_int (- (2 ^ 52)) * (2::real) powi (e + 1)"
      by (simp add: 3 power_int_add)
    then show ?thesis unfolding r using e by (intro is_doubleI [of _ "- (2 ^ 52)" "e + 1"]) simp_all
  qed
qed

lemma rnd64_error:
  assumes "x \<noteq> 0"
  shows "\<bar>rnd64 x - x\<bar> \<le> 2 powi (max (ilog2 x - 52) (- 1074)) / 2"
proof -
  define e where "e = max (ilog2 x - 52) (- 1074)"
  define z where "z = x / 2 powi e"
  have "\<bar>of_int (rne z) - z\<bar> \<le> 1 / 2"
    by (auto simp: rne_def Let_def)
  then have "\<bar>of_int (rne z) - z\<bar> * 2 powi e \<le> 1 / 2 * 2 powi e"
    by (intro mult_right_mono) simp_all
  moreover have "rnd64 x - x = (of_int (rne z) - z) * 2 powi e"
    using assms by (simp add: rnd64_def Let_def e_def z_def field_simps)
  ultimately show ?thesis by (simp add: abs_mult e_def)
qed

section \<open>Time zone offsets\<close>

lemma double_5_125: "is_double 5.125"
  by (rule is_doubleI [of _ 41 "- 3"]) simp_all

lemma double_20: "is_double 20"
  using is_double_of_int [of 20] by simp

lemma tzOffset_5_125: "tzOffset 5.125 = Some 18900"
proof -
  have t: "trunc 5.125 = 5" by (simp add: trunc_def)
  show ?thesis
    using tzOffset_in_range [OF double_5_125, unfolded t] by (simp add: Let_def)
qed

lemma tzOffset_20: "tzOffset 20 = Some 53100"
proof -
  have 1: "to_double 14 = 14" using to_double_exact [of 14] by simp
  have 2: "dsub 20 14 = 6" using rnd64_of_int [of 6] by (simp add: dsub_def)
  have "tzOffset 20 = double_to_int (- (2 ^ 31)) (2 ^ 31 - 1)
      (dadd (dmul 3600 (to_double 14)) (dmul 3600 (of_int 3 / 4)))"
    by (simp add: tzOffset_def Let_def 1 2)
  then show ?thesis using tzOffset_result [of 14 3] by simp
qed

lemma rnd64_5_6: "rnd64 5.6 = 6305039478318694 / 2 ^ 50"
  by code_simp

lemma tzOffset_5_6: "tzOffset (rnd64 5.6) = Some 19800"
proof -
  have d: "is_double (6305039478318694 / 2 ^ 50)"
    by (rule is_doubleI [of _ 6305039478318694 "- 50"]) simp_all
  have t: "trunc (6305039478318694 / 2 ^ 50) = 5" by (simp add: trunc_def)
  show ?thesis
    unfolding rnd64_5_6 using tzOffset_in_range [OF d, unfolded t] by (simp add: Let_def)
qed

text \<open>
  The claim's reading fails at \<open>5.125\<close> hours, where the code returns 5 hours and a
  quarter (18900 seconds) and the reading 5 hours (18000), and at 20 hours, where the
  code returns 14 hours and three quarters (53100 seconds) and the reading 14 hours
  (50400).
\<close>

theorem tzOffset_claimed_counterexample:
  "is_double 5.125 \<and> tzOffset 5.125 = Some 18900 \<and> tzOffset_claimed 5.125 = 18000
   \<and> is_double 20 \<and> tzOffset 20 = Some 53100 \<and> tzOffset_claimed 20 = 50400"
proof -
  have "tzOffset_claimed 5.125 = 18000" "tzOffset_claimed 20 = 50400"
    by (simp_all add: tzOffset_claimed_def trunc_def)
  then show ?thesis
    using double_5_125 double_20 tzOffset_5_125 tzOffset_20 by blast
qed

text \<open>
  Claim C7, as amended.  For every finite double \<open>hours\<close> with \<open>-14 \<le> hours \<le> 14\<close>,
  \<open>tzOffset\<close> returns 3600 times the whole hours (the hours truncated towards zero) plus
  the snapped fraction \<open>f = hours - whole\<close> in seconds: 0 when \<open>f = 0\<close>, and otherwise
  with the sign of \<open>f\<close>, 2700 when \<open>\<bar>f\<bar> \<ge> .75\<close>, 1800 when \<open>.5 \<le> \<bar>f\<bar> < .75\<close> and 900
  when \<open>0 < \<bar>f\<bar> < .5\<close>.  A non-zero fraction below a quarter hour is raised to a quarter
  hour; a fraction of a half or more is truncated down.  In particular the double of
  the literal \<open>5.6\<close> gives 19800.
\<close>

theorem tzOffset_quarter_hours:
  assumes "is_double hours" "- 14 \<le> hours" "hours \<le> 14"
  shows "tzOffset hours = Some (3600 * trunc hours
     + (let f = hours - of_int (trunc hours)
        in if f < 0 then (if f \<le> - 0.75 then - 2700 else if f \<le> - 0.5 then - 1800 else - 900)
           else if f > 0 then (if f \<ge> 0.75 then 2700 else if f \<ge> 0.5 then 1800 else 900)
           else 0))"
  using assms by (rule tzOffset_in_range)

text \<open>
  The double of the literal \<open>5.6\<close> is \<open>6305039478318694 / 2^50\<close>; five hours and
  six tenths give five hours and a half.
\<close>

theorem tzOffset_quarter_hours_witness:
  "is_double (6305039478318694 / 2 ^ 50) \<and> - 14 \<le> (6305039478318694 / 2 ^ 50 :: real)
   \<and> (6305039478318694 / 2 ^ 50 :: real) \<le> 14
   \<and> rnd64 5.6 = 6305039478318694 / 2 ^ 50
   \<and> tzOffset (rnd64 5.6) = Some 19800"
proof -
  have d: "is_double (6305039478318694 / 2 ^ 50)"
    by (rule is_doubleI [of _ 6305039478318694 "- 50"]) simp_all
  have b: "- 14 \<le> (6305039478318694 / 2 ^ 50 :: real)" "(6305039478318694 / 2 ^ 50 :: real) \<le> 14"
    by simp_all
  have t: "trunc (6305039478318694 / 2 ^ 50) = 5" by (simp add: trunc_def)
  have tz: "tzOffset (6305039478318694 / 2 ^ 50) = Some 19800"
    using tzOffset_quarter_hours [OF d b, unfolded t] by (simp add: Let_def)
  show ?thesis unfolding rnd64_5_6 by (intro conjI d b refl tz)
qed

section \<open>Construction from a double\<close>























end
